theory Spec2Isabelle
  imports Complex_Main "HOL-Library.AList"
begin

section \<open>Data model of the snake server (src/server.js)\<close>

text \<open>
  JavaScript numbers are modelled as reals: grid coordinates, directions taken from client
  messages, sequence numbers and timestamps are all JS numbers, and a client may send any
  JSON number. A grid cell \<open>{x, y}\<close> and a direction \<open>{x, y}\<close> are pairs \<open>(x, y)\<close>.
  The occupancy sets of the source are keyed by the string \<open>x + ',' + y\<close>, which identifies
  exactly the pair of numbers, so they are modelled as sets of pairs.
\<close>

type_synonym cell = "real \<times> real"
type_synonym pid = string

definition GRID :: nat where "GRID = 20"
definition TICK_HZ :: real where "TICK_HZ = 20"
definition TICK_MS :: real where "TICK_MS = 1000 / TICK_HZ"
definition ROUND_MS :: real where "ROUND_MS = 120000"
definition BASE_CPS :: real where "BASE_CPS = 7.5"

datatype rstate = Lobby | Running | Ended

text \<open>The player object of the \<open>create\<close> and \<open>join\<close> handlers, without its socket.\<close>

record player =
  name :: string
  color :: string
  score :: real
  alive :: bool
  respawnAt :: "real option"
  snake :: "cell list"
  dir :: cell
  lastSeq :: real

text \<open>An entry of \<open>room.inputs\<close>: \<open>{dir, seq}\<close>.\<close>

record inputSample =
  idir :: cell
  iseq :: real

text \<open>
  The room object of \<open>createRoom\<close>. The two JS Maps keep insertion order, which the loops over
  \<open>room.players.values()\<close> follow, so they are association lists; \<open>Map.set\<close> is
  \<open>AList.update\<close> (replace in place, or append). \<open>tickHandle\<close> is whether an interval timer
  is registered. The field \<open>tick\<close> is named \<open>tickNo\<close>, since \<open>tick\<close> is the function.
\<close>

record room =
  code :: string
  createdAt :: real
  state :: rstate
  startedAt :: "real option"
  endsAt :: "real option"
  tickHandle :: bool
  food :: "cell option"
  tickNo :: nat
  cps :: real
  moveAcc :: real
  players :: "(pid \<times> player) list"
  inputs :: "(pid \<times> inputSample) list"

text \<open>
  Messages handed to \<open>send\<close> and \<open>broadcast\<close>. A snapshot is a projection of the room, so
  the room itself stands for it.
\<close>

datatype outmsg =
    MJoined room pid
  | MPlayers room
  | MRoomMsg room
  | MEnded room
  | MState real room
  | MDeath pid string real
  | MRespawn pid "cell list" cell
  | MError pid

text \<open>
  The world of one room: the room, the messages sent so far (latest last), and the two
  sources of nondeterminism, \<open>Math.random()\<close> and \<open>Date.now()\<close>, each a stream of results
  with the index of the next one. \<open>Math.random()\<close> returns a number in \<open>[0, 1)\<close>: the model
  takes the fractional part of the stream's element.
\<close>

record world =
  room :: room
  sent :: "outmsg list"
  rnd :: "nat \<Rightarrow> real"
  rndI :: nat
  clk :: "nat \<Rightarrow> real"
  clkI :: nat

definition now :: "world \<Rightarrow> real \<times> world" where
  "now w = (clk w (clkI w), w\<lparr>clkI := Suc (clkI w)\<rparr>)"

definition random :: "world \<Rightarrow> real \<times> world" where
  "random w = (frac (rnd w (rndI w)), w\<lparr>rndI := Suc (rndI w)\<rparr>)"

definition clamp :: "real \<Rightarrow> real \<Rightarrow> real \<Rightarrow> real" where
  "clamp v a b = max a (min b v)"

text \<open>\<open>randInt a b = (Math.random() * (b - a + 1) + a) | 0\<close>, on a draw in \<open>[0, 1)\<close>.\<close>

definition randInt :: "int \<Rightarrow> int \<Rightarrow> world \<Rightarrow> int \<times> world" where
  "randInt a b w = (case random w of (u, w') \<Rightarrow> (\<lfloor>u * real_of_int (b - a + 1) + real_of_int a\<rfloor>, w'))"

definition broadcast :: "outmsg \<Rightarrow> world \<Rightarrow> world" where
  "broadcast m w = w\<lparr>sent := sent w @ [m]\<rparr>"

text \<open>\<open>send\<close> to one socket; the message names its receiver.\<close>

definition send :: "outmsg \<Rightarrow> world \<Rightarrow> world" where
  "send m w = w\<lparr>sent := sent w @ [m]\<rparr>"

definition getPlayer :: "world \<Rightarrow> pid \<Rightarrow> player option" where
  "getPlayer w i = map_of (players (room w)) i"

text \<open>A mutation of the player object with id \<open>i\<close>, which the room's map holds by reference.\<close>

definition updPlayer :: "pid \<Rightarrow> (player \<Rightarrow> player) \<Rightarrow> world \<Rightarrow> world" where
  "updPlayer i f w = w\<lparr>room := (room w)\<lparr>players := AList.map_entry i f (players (room w))\<rparr>\<rparr>"

section \<open>Killing a player\<close>

definition killPlayer :: "pid \<Rightarrow> string \<Rightarrow> world \<Rightarrow> world" where
  "killPlayer i reason w =
     (case getPlayer w i of
        None \<Rightarrow> w
      | Some p \<Rightarrow>
          if \<not> alive p then w
          else (case now w of (t, w1) \<Rightarrow>
            broadcast (MDeath i reason (t + 2000))
              (updPlayer i (\<lambda>p. p\<lparr>alive := False, respawnAt := Some (t + 2000), snake := []\<rparr>) w1)))"

section \<open>Food placement\<close>

definition body_cells :: "room \<Rightarrow> cell list" where
  "body_cells r = concat (map (\<lambda>(i, p). snake p) (players r))"

text \<open>The cells of the board in the order of the two nested loops: \<open>y\<close> outside, \<open>x\<close> inside.\<close>

definition grid_cells :: "cell list" where
  "grid_cells = concat (map (\<lambda>gy. map (\<lambda>gx. (real gx, real gy)) [0..<GRID]) [0..<GRID])"

definition free_cells :: "room \<Rightarrow> cell list" where
  "free_cells r = filter (\<lambda>c. c \<notin> set (body_cells r) \<and> food r \<noteq> Some c) grid_cells"

text \<open>
  \<open>free.length ? free[(Math.random() * free.length) | 0] : null\<close>. No number is drawn when
  no cell is free; an index outside the array reads \<open>undefined\<close>, which is as absent as
  \<open>null\<close> to every reader of the result.
\<close>

definition randomFreeCell :: "world \<Rightarrow> cell option \<times> world" where
  "randomFreeCell w =
     (let free = free_cells (room w) in
      if free = [] then (None, w)
      else (case random w of (u, w1) \<Rightarrow>
        (let k = \<lfloor>u * real (length free)\<rfloor> in
         (if 0 \<le> k \<and> nat k < length free then Some (free ! nat k) else None, w1))))"

definition placeFood :: "world \<Rightarrow> world" where
  "placeFood w = (case randomFreeCell w of (c, w1) \<Rightarrow> w1\<lparr>room := (room w1)\<lparr>food := c\<rparr>\<rparr>)"

section \<open>Spawn placement\<close>

definition in_bounds :: "cell \<Rightarrow> bool" where
  "in_bounds c = (fst c \<ge> 0 \<and> snd c \<ge> 0 \<and> fst c < real GRID \<and> snd c < real GRID)"

text \<open>The three cells, tail first, of a body whose head is \<open>h\<close> and that faces \<open>d\<close>.\<close>

definition spawn_cells :: "cell \<Rightarrow> cell \<Rightarrow> cell list" where
  "spawn_cells h d =
     [(fst h - fst d * 2, snd h - snd d * 2), (fst h - fst d, snd h - snd d), (fst h, snd h)]"

definition presets :: "(cell \<times> cell) list" where
  "presets =
     [((3, 3), (1, 0)),
      ((real GRID - 4, 3), (-1, 0)),
      ((3, real GRID - 4), (1, 0)),
      ((real GRID - 4, real GRID - 4), (-1, 0))]"

fun try_presets :: "room \<Rightarrow> (cell \<times> cell) list \<Rightarrow> (cell list \<times> cell) option" where
  "try_presets r [] = None"
| "try_presets r (sp # sps) =
     (let cells = spawn_cells (fst sp) (snd sp) in
      if list_all in_bounds cells \<and> list_all (\<lambda>c. c \<notin> set (body_cells r)) cells
      then Some (cells, snd sp)
      else try_presets r sps)"

definition dirs4 :: "cell list" where
  "dirs4 = [(1, 0), (-1, 0), (0, 1), (0, -1)]"

text \<open>The random fallback, \<open>n\<close> attempts left; \<open>break\<close> when no cell is free.\<close>

fun random_fallback :: "nat \<Rightarrow> world \<Rightarrow> (cell list \<times> cell) option \<times> world" where
  "random_fallback 0 w = (None, w)"
| "random_fallback (Suc n) w =
     (case randomFreeCell w of
        (None, w1) \<Rightarrow> (None, w1)
      | (Some h, w1) \<Rightarrow>
          (case randInt 0 3 w1 of (k, w2) \<Rightarrow>
            (let dxdy = dirs4 ! nat k; cells = spawn_cells h dxdy in
             if list_all in_bounds cells then (Some (cells, dxdy), w2)
             else random_fallback n w2)))"

definition safeSpawn :: "world \<Rightarrow> (cell list \<times> cell) \<times> world" where
  "safeSpawn w =
     (case try_presets (room w) presets of
        Some sp \<Rightarrow> (sp, w)
      | None \<Rightarrow>
          (case random_fallback 300 w of
             (Some sp, w1) \<Rightarrow> (sp, w1)
           | (None, w1) \<Rightarrow> (([(1, 1), (2, 1), (3, 1)], (1, 0)), w1)))"

section \<open>Round start and end\<close>

text \<open>The body of the loop of \<open>startRound\<close> over the players, for the player with id \<open>i\<close>.\<close>

definition resetPlayer :: "world \<Rightarrow> pid \<Rightarrow> world" where
  "resetPlayer w i =
     (case safeSpawn w of (sp, w1) \<Rightarrow>
        updPlayer i (\<lambda>p. p\<lparr>snake := fst sp, dir := snd sp, alive := True,
                             respawnAt := None, score := 0\<rparr>) w1)"

definition setInterval :: "world \<Rightarrow> world" where
  "setInterval w = w\<lparr>room := (room w)\<lparr>tickHandle := True\<rparr>\<rparr>"

definition startRound :: "world \<Rightarrow> world" where
  "startRound w =
     (if state (room w) = Running then w
      else (case now w of (t, w1) \<Rightarrow>
        (let w2 = w1\<lparr>room := (room w1)\<lparr>state := Running, startedAt := Some t,
                                         endsAt := Some (t + ROUND_MS)\<rparr>\<rparr>;
             w3 = foldl resetPlayer w2 (map fst (players (room w2)));
             w4 = placeFood w3;
             w5 = broadcast (MRoomMsg (room w4)) w4
         in setInterval w5)))"

definition endRound :: "world \<Rightarrow> world" where
  "endRound w =
     (if state (room w) \<noteq> Running then w
      else (let w1 = w\<lparr>room := (room w)\<lparr>state := Ended, tickHandle := False\<rparr>\<rparr>
            in broadcast (MEnded (room w1)) w1))"

section \<open>Respawn and input application\<close>

text \<open>
  \<open>!p.respawnAt\<close> holds of \<open>null\<close> and of \<open>0\<close>; the clock is read only after that test.
\<close>

definition maybeRespawn :: "world \<Rightarrow> pid \<Rightarrow> world" where
  "maybeRespawn w i =
     (case getPlayer w i of
        None \<Rightarrow> w
      | Some p \<Rightarrow>
          if alive p then w
          else (case respawnAt p of
                  None \<Rightarrow> w
                | Some d \<Rightarrow>
                    if d = 0 then w
                    else (case now w of (t, w1) \<Rightarrow>
                      if t < d then w1
                      else (case safeSpawn w1 of (sp, w2) \<Rightarrow>
                        broadcast (MRespawn i (fst sp) (snd sp))
                          (updPlayer i (\<lambda>p. p\<lparr>snake := fst sp, dir := snd sp, alive := True,
                                               respawnAt := None\<rparr>) w2)))))"

definition applyInput :: "player \<Rightarrow> cell option \<Rightarrow> player" where
  "applyInput p inputDir =
     (case inputDir of
        None \<Rightarrow> p
      | Some d \<Rightarrow>
          if fst d = - fst (dir p) \<and> snd d = - snd (dir p) then p
          else p\<lparr>dir := d\<rparr>)"

text \<open>
  The body of the two loops of \<open>tick\<close> that apply the buffered inputs. A stored sample always
  has a direction object and a number as \<open>seq\<close>, and \<open>p.lastSeq || 0\<close> is \<open>p.lastSeq\<close>.
\<close>

definition applyBuffered :: "world \<Rightarrow> pid \<Rightarrow> world" where
  "applyBuffered w i =
     (case getPlayer w i of
        None \<Rightarrow> w
      | Some p \<Rightarrow>
          if \<not> alive p then w
          else (case map_of (inputs (room w)) i of
                  None \<Rightarrow> w
                | Some inp \<Rightarrow>
                    updPlayer i (\<lambda>p. let p1 = applyInput p (Some (idir inp)) in
                                      if iseq inp > lastSeq p1 then p1\<lparr>lastSeq := iseq inp\<rparr> else p1) w))"

definition applyInputs :: "world \<Rightarrow> world" where
  "applyInputs w = foldl applyBuffered w (map fst (players (room w)))"

section \<open>The movement step\<close>

text \<open>\<open>head.x + p.dir.x, head.y + p.dir.y\<close>, the head being the last cell of the body.\<close>

definition nextHead :: "player \<Rightarrow> cell" where
  "nextHead p = (fst (last (snake p)) + fst (dir p), snd (last (snake p)) + snd (dir p))"

text \<open>The list \<open>next\<close>: the new head of every alive player with a body, in the map's order.\<close>

definition next_heads :: "room \<Rightarrow> (pid \<times> cell) list" where
  "next_heads r =
     map (\<lambda>(i, p). (i, nextHead p)) (filter (\<lambda>(i, p). alive p \<and> snake p \<noteq> []) (players r))"

text \<open>
  The body of the loop "resolve each move", for the move \<open>m\<close> of the player \<open>i\<close> against the
  occupancy set \<open>body\<close> taken before the loop.
\<close>

definition resolveMove :: "cell set \<Rightarrow> world \<Rightarrow> pid \<times> cell \<Rightarrow> world" where
  "resolveMove body w mv =
     (case mv of (i, m) \<Rightarrow>
        if fst m < 0 \<or> snd m < 0 \<or> fst m \<ge> real GRID \<or> snd m \<ge> real GRID
        then killPlayer i ''wall'' w
        else if m \<in> body then killPlayer i ''body'' w
        else (let w1 = updPlayer i (\<lambda>p. p\<lparr>snake := snake p @ [m]\<rparr>) w in
              if food (room w1) = Some m
              then placeFood (updPlayer i (\<lambda>p. p\<lparr>score := score p + 10\<rparr>) w1)
              else updPlayer i (\<lambda>p. p\<lparr>snake := tl (snake p)\<rparr>) w1))"

definition moveStep :: "world \<Rightarrow> world" where
  "moveStep w = foldl (resolveMove (set (body_cells (room w)))) w (next_heads (room w))"

section \<open>The tick\<close>

text \<open>The body of the \<open>while\<close> loop of \<open>tick\<close>.\<close>

definition loopBody :: "real \<Rightarrow> world \<Rightarrow> world" where
  "loopBody step w =
     (let w1 = moveStep (applyInputs w)
      in w1\<lparr>room := (room w1)\<lparr>moveAcc := moveAcc (room w1) - step\<rparr>\<rparr>)"

text \<open>
  \<open>while (room.moveAcc >= step) { ... }\<close>. Nothing in the loop itself bounds the number of
  rounds (a step of \<open>0\<close> never ends it), so the loop is a partial function: \<open>None\<close> is a loop
  that does not return.
\<close>

partial_function (option) moveLoop :: "real \<Rightarrow> world \<Rightarrow> world option" where
  "moveLoop step w =
     (if moveAcc (room w) \<ge> step then moveLoop step (loopBody step w) else Some w)"

text \<open>
  The accumulator update of \<open>tick\<close>: \<open>room.moveAcc += TICK_MS / 1000\<close>, then
  \<open>room.moveAcc = Math.min(room.moveAcc, step * 2)\<close> with \<open>step = 1 / room.cps\<close>. With
  \<open>room.cps\<close> equal to \<open>0\<close> the step is \<open>Infinity\<close> in JavaScript: the minimum leaves the
  accumulator, and the loop after it does not run.
\<close>

definition accumulate :: "world \<Rightarrow> world" where
  "accumulate w =
     (let w1 = w\<lparr>room := (room w)\<lparr>moveAcc := moveAcc (room w) + TICK_MS / 1000\<rparr>\<rparr> in
      if cps (room w1) = 0 then w1
      else w1\<lparr>room := (room w1)\<lparr>moveAcc := min (moveAcc (room w1)) (1 / cps (room w1) * 2)\<rparr>\<rparr>)"

text \<open>\<open>tick\<close> after the test of the round's end, \<open>t\<close> being the clock read before it.\<close>

definition tickBody :: "real \<Rightarrow> world \<Rightarrow> world option" where
  "tickBody t w =
     (let w1 = foldl maybeRespawn w (map fst (players (room w)));
          w2 = applyInputs w1;
          w3 = accumulate w2
      in (case (if cps (room w3) = 0 then Some w3 else moveLoop (1 / cps (room w3)) w3) of
            None \<Rightarrow> None
          | Some w4 \<Rightarrow> Some (broadcast (MState t (room w4)) w4)))"

text \<open>\<open>room.endsAt && t >= room.endsAt\<close>, which fails on \<open>null\<close> and on \<open>0\<close>.\<close>

definition roundOver :: "real \<Rightarrow> room \<Rightarrow> bool" where
  "roundOver t r = (case endsAt r of None \<Rightarrow> False | Some e \<Rightarrow> e \<noteq> 0 \<and> t \<ge> e)"

definition tick :: "world \<Rightarrow> world option" where
  "tick w =
     (if state (room w) \<noteq> Running then Some w
      else (let w1 = w\<lparr>room := (room w)\<lparr>tickNo := Suc (tickNo (room w))\<rparr>\<rparr> in
        (case now w1 of (t, w2) \<Rightarrow>
          if roundOver t (room w2) then Some (endRound w2) else tickBody t w2)))"

section \<open>The message handlers of one room\<close>

text \<open>A JSON value as far as the \<open>input\<close> handler looks: a number, or anything else.\<close>

datatype jsv = JNum real | JOther

text \<open>
  An \<open>input\<close> message: \<open>mdir\<close> is \<open>None\<close> when \<open>msg.dir\<close> is missing or falsy, else its \<open>x\<close> and
  \<open>y\<close>; \<open>mseq\<close> is \<open>msg.seq\<close>.
\<close>

record inputMsg =
  mdir :: "(jsv \<times> jsv) option"
  mseq :: jsv

text \<open>\<open>typeof msg.seq === 'number' ? msg.seq : 0\<close>\<close>

definition msgSeq :: "inputMsg \<Rightarrow> real" where
  "msgSeq msg = (case mseq msg of JNum s \<Rightarrow> s | JOther \<Rightarrow> 0)"

definition onInput :: "pid \<Rightarrow> inputMsg \<Rightarrow> world \<Rightarrow> world" where
  "onInput i msg w =
     (case mdir msg of
        Some (JNum dx, JNum dy) \<Rightarrow>
          (let seq = msgSeq msg;
               w1 = w\<lparr>room := (room w)\<lparr>inputs :=
                      AList.update i \<lparr>idir = (clamp dx (-1) 1, clamp dy (-1) 1), iseq = seq\<rparr>
                        (inputs (room w))\<rparr>\<rparr>
           in (case getPlayer w1 i of
                 None \<Rightarrow> w1
               | Some p \<Rightarrow> if seq > lastSeq p then updPlayer i (\<lambda>p. p\<lparr>lastSeq := seq\<rparr>) w1 else w1))
      | _ \<Rightarrow> w)"

definition newPlayer :: "string \<Rightarrow> string \<Rightarrow> player" where
  "newPlayer nm col =
     \<lparr>name = take 16 nm, color = col, score = 0, alive = True, respawnAt = None,
      snake = [], dir = (1, 0), lastSeq = 0\<rparr>"

text \<open>
  What the \<open>create\<close> and \<open>join\<close> handlers do once the player object is built: enter it in the
  map, spawn it, place food (\<open>create\<close>: always; \<open>join\<close>: when absent), answer.
\<close>

definition addPlayer :: "bool \<Rightarrow> pid \<Rightarrow> string \<Rightarrow> string \<Rightarrow> world \<Rightarrow> world" where
  "addPlayer always i nm col w =
     (let w1 = w\<lparr>room := (room w)\<lparr>players := AList.update i (newPlayer nm col) (players (room w))\<rparr>\<rparr>
      in (case safeSpawn w1 of (sp, w2) \<Rightarrow>
        (let w3 = updPlayer i (\<lambda>p. p\<lparr>snake := fst sp, dir := snd sp\<rparr>) w2;
             w4 = (if always \<or> food (room w3) = None then placeFood w3 else w3);
             w5 = send (MJoined (room w4) i) w4
         in broadcast (MPlayers (room w5)) w5)))"

definition createRoom :: "string \<Rightarrow> world \<Rightarrow> world" where
  "createRoom c w =
     (case now w of (t, w1) \<Rightarrow>
        w1\<lparr>room := \<lparr>code = c, createdAt = t, state = Lobby, startedAt = None, endsAt = None,
                    tickHandle = False, food = None, tickNo = 0, cps = BASE_CPS, moveAcc = 0,
                    players = [], inputs = []\<rparr>\<rparr>)"

definition onCreate :: "string \<Rightarrow> pid \<Rightarrow> string \<Rightarrow> string \<Rightarrow> world \<Rightarrow> world" where
  "onCreate c i nm col w = addPlayer True i nm col (createRoom c w)"

definition onJoin :: "pid \<Rightarrow> string \<Rightarrow> string \<Rightarrow> world \<Rightarrow> world" where
  "onJoin i nm col w =
     (if length (players (room w)) \<ge> 4 then send (MError i) w
      else addPlayer False i nm col w)"

definition onStart :: "world \<Rightarrow> world" where
  "onStart w = startRound w"

definition onClose :: "pid \<Rightarrow> world \<Rightarrow> world" where
  "onClose i w =
     (let w1 = w\<lparr>room := (room w)\<lparr>inputs := AList.delete i (inputs (room w)),
                                    players := AList.delete i (players (room w))\<rparr>\<rparr>
      in if players (room w1) = [] then w1\<lparr>room := (room w1)\<lparr>tickHandle := False\<rparr>\<rparr>
         else broadcast (MPlayers (room w1)) w1)"

text \<open>What can happen to a room once it is created, and a run of such events.\<close>

datatype event =
    EJoin pid string string
  | EStart
  | EInput pid inputMsg
  | EClose pid
  | ETick

fun handle :: "world \<Rightarrow> event \<Rightarrow> world option" where
  "handle w (EJoin i nm col) = Some (onJoin i nm col w)"
| "handle w EStart = Some (onStart w)"
| "handle w (EInput i msg) = Some (onInput i msg w)"
| "handle w (EClose i) = Some (onClose i w)"
| "handle w ETick = tick w"

fun run :: "world \<Rightarrow> event list \<Rightarrow> world option" where
  "run w [] = Some w"
| "run w (e # es) = (case handle w e of None \<Rightarrow> None | Some w1 \<Rightarrow> run w1 es)"

section \<open>Predicates and example states for the properties\<close>

text \<open>
  What no operation of a tick changes: the two streams, the ids in the players map and their
  order, and every field of the room except \<open>players\<close> and \<open>food\<close>.
\<close>

definition frame :: "world \<Rightarrow> world \<Rightarrow> bool" where
  "frame w w' \<longleftrightarrow>
     rnd w' = rnd w \<and> clk w' = clk w \<and>
     map fst (players (room w')) = map fst (players (room w)) \<and>
     code (room w') = code (room w) \<and> createdAt (room w') = createdAt (room w) \<and>
     state (room w') = state (room w) \<and> startedAt (room w') = startedAt (room w) \<and>
     endsAt (room w') = endsAt (room w) \<and> tickHandle (room w') = tickHandle (room w) \<and>
     tickNo (room w') = tickNo (room w) \<and> cps (room w') = cps (room w) \<and>
     moveAcc (room w') = moveAcc (room w) \<and> inputs (room w') = inputs (room w)"

text \<open>A running room with one live snake, one dead player and one buffered input.\<close>

definition exSnake :: player where
  "exSnake = \<lparr>name = ''ann'', color = ''green'', score = 0, alive = True, respawnAt = None,
              snake = [(1, 3), (2, 3), (3, 3)], dir = (1, 0), lastSeq = 0\<rparr>"

definition exCorpse :: player where
  "exCorpse = \<lparr>name = ''bob'', color = ''red'', score = 20, alive = False, respawnAt = Some 5000,
               snake = [], dir = (-1, 0), lastSeq = 4\<rparr>"

definition exRoom :: room where
  "exRoom = \<lparr>code = ''ABCDE'', createdAt = 0, state = Running, startedAt = Some 1000,
             endsAt = Some 121000, tickHandle = True, food = Some (5, 5), tickNo = 40,
             cps = BASE_CPS, moveAcc = 0, players = [(''1'', exSnake), (''2'', exCorpse)],
             inputs = [(''1'', \<lparr>idir = (-1, 0), iseq = 7\<rparr>)]\<rparr>"

definition exWorld :: world where
  "exWorld = \<lparr>room = exRoom, sent = [], rnd = (\<lambda>n. 0), rndI = 0,
              clk = (\<lambda>n. 3000 + 50 * real n), clkI = 0\<rparr>"

text \<open>A board wholly covered by one body.\<close>

definition exFull :: world where
  "exFull = exWorld\<lparr>room := exRoom\<lparr>players := [(''1'', exSnake\<lparr>snake := grid_cells\<rparr>)]\<rparr>\<rparr>"

text \<open>
  The example room when the clock has passed the end of its round, and the ended room that
  its next tick leaves.
\<close>

definition exLate :: world where
  "exLate = exWorld\<lparr>clk := (\<lambda>n. 125000 + 50 * real n)\<rparr>"

definition exEnded :: world where
  "exEnded = exLate\<lparr>room := exRoom\<lparr>state := Ended, tickHandle := False, tickNo := 41\<rparr>,
       sent := [MEnded (exRoom\<lparr>state := Ended, tickHandle := False, tickNo := 41\<rparr>)], clkI := 1\<rparr>"

text \<open>
  The accumulator update as the specification words it: the real seconds \<open>el\<close> elapsed since
  the previous tick are added, then the accumulator is clamped to two step-durations.
\<close>

definition accumulate_spec :: "real \<Rightarrow> world \<Rightarrow> world" where
  "accumulate_spec el w =
     (let w1 = w\<lparr>room := (room w)\<lparr>moveAcc := moveAcc (room w) + el\<rparr>\<rparr> in
      if cps (room w1) = 0 then w1
      else w1\<lparr>room := (room w1)\<lparr>moveAcc := min (moveAcc (room w1)) (1 / cps (room w1) * 2)\<rparr>\<rparr>)"

text \<open>The world in which the \<open>while\<close> loop of a tick starts, for a tick that reaches it.\<close>

definition beforeLoop :: "world \<Rightarrow> world" where
  "beforeLoop w =
     (let w1 = w\<lparr>room := (room w)\<lparr>tickNo := Suc (tickNo (room w))\<rparr>\<rparr>;
          w2 = snd (now w1)
      in accumulate (applyInputs (foldl maybeRespawn w2 (map fst (players (room w2))))))"

text \<open>One live snake alone in a running room, with a clock that advances a second a reading.\<close>

definition exSolo :: world where
  "exSolo = exWorld\<lparr>room := exRoom\<lparr>players := [(''1'', exSnake)]\<rparr>,
                     clk := (\<lambda>n. 3000 + 1000 * real n)\<rparr>"

text \<open>
  The world in which the move of player \<open>i\<close> is resolved: the moves before it in \<open>next\<close> are
  done. Its food is the current food cell of that move.
\<close>

definition beforeMove :: "world \<Rightarrow> pid \<Rightarrow> world" where
  "beforeMove w i =
     foldl (resolveMove (set (body_cells (room w)))) w
       (takeWhile (\<lambda>mv. fst mv \<noteq> i) (next_heads (room w)))"

text \<open>Two snakes whose heads are two cells apart and face each other, food between them.\<close>

definition exDuel :: world where
  "exDuel = exWorld\<lparr>room := exRoom\<lparr>food := Some (4, 3), players :=
      [(''1'', exSnake),
       (''2'', exSnake\<lparr>name := ''bob'', snake := [(7, 3), (6, 3), (5, 3)], dir := (-1, 0)\<rparr>)]\<rparr>\<rparr>"

text \<open>
  The changes that the operations on a room make to one player object, \<open>inp\<close> being the
  player's buffered input: killed, spawned (in a round, or on entering the room), score
  reset, turned to the buffered direction, sequence number raised to the buffered one, head
  appended, tail removed, score raised.
\<close>

inductive pstep :: "inputSample option \<Rightarrow> player \<Rightarrow> player \<Rightarrow> bool" for inp where
  kill: "pstep inp p (p\<lparr>alive := False, respawnAt := Some t, snake := []\<rparr>)"
| spawn: "list_all in_bounds cells \<Longrightarrow> d \<in> set dirs4 \<Longrightarrow>
          pstep inp p (p\<lparr>snake := cells, dir := d, alive := True, respawnAt := None\<rparr>)"
| place: "list_all in_bounds cells \<Longrightarrow> d \<in> set dirs4 \<Longrightarrow>
          pstep inp p (p\<lparr>snake := cells, dir := d\<rparr>)"
| reset: "pstep inp p (p\<lparr>score := 0\<rparr>)"
| turn: "inp = Some s \<Longrightarrow> pstep inp p (p\<lparr>dir := idir s\<rparr>)"
| ack: "inp = Some s \<Longrightarrow> lastSeq p < iseq s \<Longrightarrow> pstep inp p (p\<lparr>lastSeq := iseq s\<rparr>)"
| push: "in_bounds m \<Longrightarrow> pstep inp p (p\<lparr>snake := snake p @ [m]\<rparr>)"
| shift: "pstep inp p (p\<lparr>snake := tl (snake p)\<rparr>)"
| gain: "pstep inp p (p\<lparr>score := score p + 10\<rparr>)"

text \<open>
  From \<open>w\<close> to \<open>w'\<close> the buffered inputs are the same, the ids in the players map and
  their order are the same, and every player has changed by such steps only.
\<close>

definition evolves :: "world \<Rightarrow> world \<Rightarrow> bool" where
  "evolves w w' \<longleftrightarrow>
     inputs (room w') = inputs (room w) \<and>
     map fst (players (room w')) = map fst (players (room w)) \<and>
     (\<forall>i. rel_option (rtranclp (pstep (map_of (inputs (room w)) i))) (getPlayer w i) (getPlayer w' i))"

text \<open>A received input message or a tick.\<close>

fun inputOrTick :: "event \<Rightarrow> bool" where
  "inputOrTick (EInput i msg) = True"
| "inputOrTick ETick = True"
| "inputOrTick e = False"

text \<open>A direction whose two components lie in \<open>[-1, 1]\<close>.\<close>

definition dirOk :: "cell \<Rightarrow> bool" where
  "dirOk d = (- 1 \<le> fst d \<and> fst d \<le> 1 \<and> - 1 \<le> snd d \<and> snd d \<le> 1)"

definition keysDistinct :: "world \<Rightarrow> bool" where
  "keysDistinct w = distinct (map fst (players (room w)))"

text \<open>A predicate holds of every player object, of every buffered input, of the room.\<close>

definition playersAll :: "(player \<Rightarrow> bool) \<Rightarrow> world \<Rightarrow> bool" where
  "playersAll P w = list_all (\<lambda>(i, p). P p) (players (room w))"

definition inputsAll :: "(inputSample \<Rightarrow> bool) \<Rightarrow> world \<Rightarrow> bool" where
  "inputsAll Q w = list_all (\<lambda>(i, s). Q s) (inputs (room w))"

definition bodiesInBounds :: "world \<Rightarrow> bool" where
  "bodiesInBounds w = playersAll (\<lambda>p. list_all in_bounds (snake p)) w"

definition dirsInRange :: "world \<Rightarrow> bool" where
  "dirsInRange w = (playersAll (\<lambda>p. dirOk (dir p)) w \<and> inputsAll (\<lambda>s. dirOk (idir s)) w)"

text \<open>A snake about to leave the board on the right.\<close>

definition exWall :: world where
  "exWall = exWorld\<lparr>room := exRoom\<lparr>players :=
      [(''1'', exSnake\<lparr>snake := [(17, 3), (18, 3), (19, 3)]\<rparr>)]\<rparr>\<rparr>"

text \<open>
  The ids of the players map are distinct, \<open>P\<close> holds of every player, \<open>Q\<close> of every
  buffered input.
\<close>

definition roomInv :: "(player \<Rightarrow> bool) \<Rightarrow> (inputSample \<Rightarrow> bool) \<Rightarrow> world \<Rightarrow> bool" where
  "roomInv P Q w = (keysDistinct w \<and> playersAll P w \<and> inputsAll Q w)"

text \<open>\<open>P\<close> survives every step of a player whose buffered input, if any, satisfies \<open>Q\<close>.\<close>

definition preserved :: "(player \<Rightarrow> bool) \<Rightarrow> (inputSample \<Rightarrow> bool) \<Rightarrow> bool" where
  "preserved P Q = (\<forall>inp q q'. pstep inp q q' \<and> P q \<and> (\<forall>s. inp = Some s \<longrightarrow> Q s) \<longrightarrow> P q')"

text \<open>The food, when there is one, is on a cell that no body covers.\<close>

definition foodOffBodies :: "world \<Rightarrow> bool" where
  "foodOffBodies w = (case food (room w) of None \<Rightarrow> True | Some c \<Rightarrow> c \<notin> set (body_cells (room w)))"

text \<open>The example room without food, and in the lobby before its first round.\<close>

definition exNoFood :: world where
  "exNoFood = exWorld\<lparr>room := exRoom\<lparr>food := None\<rparr>\<rparr>"

definition exLobby :: world where
  "exLobby = exWorld\<lparr>room := exRoom\<lparr>state := Lobby, startedAt := None, endsAt := None,
       tickHandle := False, tickNo := 0\<rparr>\<rparr>"

section \<open>The random source and the frame of the operations\<close>

lemma map_fst_map_entry: "map fst (AList.map_entry k f xs) = map fst xs"
  by (induction xs) auto

lemma randomFreeCell_world: "\<exists>n. snd (randomFreeCell w) = w\<lparr>rndI := n\<rparr>"
proof (cases "free_cells (room w) = []")
  case True
  then have "snd (randomFreeCell w) = w\<lparr>rndI := rndI w\<rparr>"
    by (simp add: randomFreeCell_def)
  then show ?thesis by blast
next
  case False
  then have "snd (randomFreeCell w) = w\<lparr>rndI := Suc (rndI w)\<rparr>"
    by (simp add: randomFreeCell_def random_def Let_def)
  then show ?thesis by blast
qed

lemma randomFreeCell_free:
  assumes "fst (randomFreeCell w) = Some c"
  shows "c \<in> set (free_cells (room w))"
  using assms
  by (auto simp: randomFreeCell_def Let_def random_def split: if_splits)

lemma floor_frac_mult_range:
  assumes "0 < n"
  shows "0 \<le> \<lfloor>frac u * real n\<rfloor> \<and> nat \<lfloor>frac u * real n\<rfloor> < n"
proof -
  have a: "0 \<le> frac u * real n" by simp
  have "frac u * real n < real n" using assms frac_lt_1 [of u] by simp
  then have "\<lfloor>frac u * real n\<rfloor> < int n" by (simp add: floor_less_iff)
  with a show ?thesis by (simp add: nat_less_iff)
qed

lemma randomFreeCell_Some:
  assumes "free_cells (room w) \<noteq> []"
  shows "\<exists>c. fst (randomFreeCell w) = Some c"
  using assms floor_frac_mult_range [of "length (free_cells (room w))" "rnd w (rndI w)"]
  by (simp add: randomFreeCell_def Let_def random_def)

lemma randInt_world: "snd (randInt a b w) = w\<lparr>rndI := Suc (rndI w)\<rparr>"
  by (simp add: randInt_def random_def)

lemma randInt_0_3: "0 \<le> fst (randInt 0 3 w) \<and> nat (fst (randInt 0 3 w)) < 4"
  using floor_frac_mult_range [of 4 "rnd w (rndI w)"]
  by (simp add: randInt_def random_def)

lemma frame_refl: "frame w w"
  by (simp add: frame_def)

lemma frame_trans: "frame w w1 \<Longrightarrow> frame w1 w2 \<Longrightarrow> frame w w2"
  by (simp add: frame_def)

lemma frame_rndI: "frame w (w\<lparr>rndI := n\<rparr>)"
  by (simp add: frame_def)

lemma frame_updPlayer: "frame w (updPlayer i f w)"
  by (simp add: frame_def updPlayer_def map_fst_map_entry)

lemma frame_broadcast: "frame w (broadcast m w)"
  by (simp add: frame_def broadcast_def)

lemma frame_now: "frame w (snd (now w))"
  by (simp add: frame_def now_def)

lemma frame_killPlayer: "frame w (killPlayer i r w)"
  by (auto simp: killPlayer_def now_def split: option.splits
      intro!: frame_refl frame_trans [OF _ frame_broadcast] frame_trans [OF _ frame_updPlayer])
     (simp add: frame_def)

lemma frame_placeFood: "frame w (placeFood w)"
proof -
  obtain n where "snd (randomFreeCell w) = w\<lparr>rndI := n\<rparr>"
    using randomFreeCell_world by blast
  then show ?thesis
    by (auto simp: placeFood_def frame_def split: prod.splits)
qed

lemma random_fallback_world: "\<exists>n. snd (random_fallback k w) = w\<lparr>rndI := n\<rparr>"
proof (induction k arbitrary: w)
  case 0
  have "snd (random_fallback 0 w) = w\<lparr>rndI := rndI w\<rparr>" by simp
  then show ?case by blast
next
  case (Suc k)
  obtain c w1 where r: "randomFreeCell w = (c, w1)" by (cases "randomFreeCell w")
  obtain n where n: "w1 = w\<lparr>rndI := n\<rparr>"
    using randomFreeCell_world [of w] r by auto
  show ?case
  proof (cases c)
    case None
    with r n show ?thesis by auto
  next
    case (Some h)
    obtain j w2 where j: "randInt 0 3 w1 = (j, w2)" by (cases "randInt 0 3 w1")
    have w2: "w2 = w\<lparr>rndI := Suc n\<rparr>"
      using randInt_world [of 0 3 w1] j n by simp
    obtain n' where n': "snd (random_fallback k w2) = w2\<lparr>rndI := n'\<rparr>"
      using Suc.IH by blast
    show ?thesis
    proof (cases "list_all in_bounds (spawn_cells h (dirs4 ! nat j))")
      case True
      with r Some j w2 show ?thesis by (auto simp: Let_def)
    next
      case False
      with r Some j have "snd (random_fallback (Suc k) w) = snd (random_fallback k w2)"
        by (simp add: Let_def)
      with n' w2 have "snd (random_fallback (Suc k) w) = w\<lparr>rndI := n'\<rparr>" by simp
      then show ?thesis by blast
    qed
  qed
qed

lemma safeSpawn_world: "\<exists>n. snd (safeSpawn w) = w\<lparr>rndI := n\<rparr>"
proof (cases "try_presets (room w) presets")
  case (Some sp)
  then have "snd (safeSpawn w) = w\<lparr>rndI := rndI w\<rparr>" by (simp add: safeSpawn_def)
  then show ?thesis by blast
next
  case None
  obtain n where "snd (random_fallback 300 w) = w\<lparr>rndI := n\<rparr>"
    using random_fallback_world by blast
  with None have "snd (safeSpawn w) = w\<lparr>rndI := n\<rparr>"
    by (auto simp: safeSpawn_def split: prod.splits option.splits)
  then show ?thesis by blast
qed

lemma frame_safeSpawn: "frame w (snd (safeSpawn w))"
  using safeSpawn_world [of w] frame_rndI by auto

lemma frame_foldl:
  assumes "\<And>v a. frame v (f v a)"
  shows "frame w (foldl f w xs)"
proof (induction xs arbitrary: w)
  case Nil
  show ?case by (simp add: frame_refl)
next
  case (Cons a xs)
  show ?case using frame_trans [OF assms Cons] by simp
qed

lemma frame_maybeRespawn: "frame w (maybeRespawn w i)"
proof -
  have step: "frame w (broadcast m (updPlayer i f (snd (safeSpawn (snd (now w))))))" for m f
    by (meson frame_trans frame_now frame_safeSpawn frame_updPlayer frame_broadcast)
  show ?thesis
    using step frame_now [of w]
    by (auto simp: maybeRespawn_def frame_refl split: option.splits prod.splits)
qed

lemma frame_applyBuffered: "frame w (applyBuffered w i)"
  by (simp add: applyBuffered_def frame_refl frame_updPlayer split: option.splits)

lemma frame_applyInputs: "frame w (applyInputs w)"
  unfolding applyInputs_def by (rule frame_foldl) (rule frame_applyBuffered)

lemma frame_resolveMove: "frame w (resolveMove body w mv)"
proof -
  have a: "frame w (placeFood (updPlayer i f (updPlayer i g w)))" for i f g
    by (meson frame_trans frame_updPlayer frame_placeFood)
  have b: "frame w (updPlayer i f (updPlayer i g w))" for i f g
    by (meson frame_trans frame_updPlayer)
  show ?thesis
    by (cases mv) (simp add: resolveMove_def Let_def frame_killPlayer a b)
qed

lemma frame_moveStep: "frame w (moveStep w)"
  unfolding moveStep_def by (rule frame_foldl) (rule frame_resolveMove)

section \<open>Killing is idempotent\<close>

lemma getPlayer_updPlayer:
  "getPlayer (updPlayer i f w) j = (if j = i then map_option f (getPlayer w i) else getPlayer w j)"
  by (simp add: getPlayer_def updPlayer_def map_of_map_entry split: option.splits)

lemma getPlayer_broadcast: "getPlayer (broadcast m w) j = getPlayer w j"
  by (simp add: getPlayer_def broadcast_def)

lemma getPlayer_clkI: "getPlayer (w\<lparr>clkI := n\<rparr>) j = getPlayer w j"
  by (simp add: getPlayer_def)

lemma killPlayer_alive:
  assumes "getPlayer w i = Some p" "alive p"
  shows "killPlayer i r w =
      broadcast (MDeath i r (clk w (clkI w) + 2000))
        (updPlayer i (\<lambda>p. p\<lparr>alive := False, respawnAt := Some (clk w (clkI w) + 2000), snake := []\<rparr>)
          (w\<lparr>clkI := Suc (clkI w)\<rparr>))"
  using assms by (simp add: killPlayer_def now_def)

lemma getPlayer_killPlayer:
  "getPlayer (killPlayer i r w) j =
     (if j = i then map_option (\<lambda>p. if alive p then p\<lparr>alive := False, respawnAt := Some (clk w (clkI w) + 2000), snake := []\<rparr> else p) (getPlayer w i)
      else getPlayer w j)"
proof (cases "getPlayer w i")
  case None
  then show ?thesis by (simp add: killPlayer_def)
next
  case (Some p)
  show ?thesis
  proof (cases "alive p")
    case True
    show ?thesis
      by (simp add: killPlayer_alive [OF Some True] getPlayer_broadcast getPlayer_updPlayer
          getPlayer_clkI Some True)
  next
    case False
    with Some show ?thesis by (simp add: killPlayer_def)
  qed
qed

text \<open>
  C10: killing a player who is not alive changes nothing, neither the room nor the messages
  sent nor the clock; so a second kill after a first one is the first one alone, and no
  second death event is sent.
\<close>

theorem killPlayer_idempotent:
  "(\<forall>p. getPlayer w i = Some p \<longrightarrow> \<not> alive p \<longrightarrow> killPlayer i reason w = w) \<and>
   killPlayer i r2 (killPlayer i r1 w) = killPlayer i r1 w"
proof
  show "\<forall>p. getPlayer w i = Some p \<longrightarrow> \<not> alive p \<longrightarrow> killPlayer i reason w = w"
    by (simp add: killPlayer_def)
next
  have "\<not> alive q" if "getPlayer (killPlayer i r1 w) i = Some q" for q
  proof -
    from that obtain p where "getPlayer w i = Some p"
      and "q = (if alive p then p\<lparr>alive := False, respawnAt := Some (clk w (clkI w) + 2000), snake := []\<rparr> else p)"
      by (auto simp: getPlayer_killPlayer)
    then show ?thesis by (cases "alive p") simp_all
  qed
  then show "killPlayer i r2 (killPlayer i r1 w) = killPlayer i r1 w"
    by (cases "getPlayer (killPlayer i r1 w) i") (simp_all add: killPlayer_def)
qed

theorem killPlayer_idempotent_witness:
  "getPlayer exWorld ''2'' = Some exCorpse \<and> \<not> alive exCorpse \<and>
   killPlayer ''2'' ''body'' exWorld = exWorld \<and>
   killPlayer ''1'' ''body'' (killPlayer ''1'' ''wall'' exWorld) = killPlayer ''1'' ''wall'' exWorld"
  using killPlayer_idempotent [of exWorld "''2''" "''body''"]
    killPlayer_idempotent [of exWorld "''1''" "''body''" "''body''" "''wall''"]
  by (simp add: getPlayer_def exWorld_def exRoom_def exCorpse_def)

section \<open>Reversals are ignored\<close>

lemma applyInput_reverse: "applyInput p (Some (- fst (dir p), - snd (dir p))) = p"
  by (simp add: applyInput_def)

lemma applyBuffered_other: "j \<noteq> i \<Longrightarrow> getPlayer (applyBuffered w j) i = getPlayer w i"
  by (simp add: applyBuffered_def getPlayer_updPlayer split: option.splits)

lemma applyBuffered_reverse:
  assumes "getPlayer w i = Some p" "map_of (inputs (room w)) i = Some inp"
    "idir inp = (- fst (dir p), - snd (dir p))"
  shows "\<exists>p'. getPlayer (applyBuffered w i) i = Some p' \<and> dir p' = dir p"
  using assms
  by (simp add: applyBuffered_def getPlayer_updPlayer applyInput_def Let_def)

lemma foldl_applyBuffered_reverse:
  assumes "getPlayer w i = Some p" "map_of (inputs (room w)) i = Some inp"
    "idir inp = (- fst (dir p), - snd (dir p))"
  shows "\<exists>p'. getPlayer (foldl applyBuffered w js) i = Some p' \<and> dir p' = dir p"
  using assms
proof (induction js arbitrary: w p)
  case Nil
  then show ?case by simp
next
  case (Cons j js)
  have inp: "inputs (room (applyBuffered w j)) = inputs (room w)"
    using frame_applyBuffered [of w j] by (simp add: frame_def)
  obtain q where q: "getPlayer (applyBuffered w j) i = Some q" "dir q = dir p"
  proof (cases "j = i")
    case True
    with applyBuffered_reverse [OF Cons.prems] that show ?thesis by blast
  next
    case False
    with applyBuffered_other [of j i w] Cons.prems(1) that show ?thesis by simp
  qed
  have "\<exists>p'. getPlayer (foldl applyBuffered (applyBuffered w j) js) i = Some p' \<and> dir p' = dir q"
    by (rule Cons.IH [OF q(1)]) (simp_all add: inp Cons.prems q(2))
  with q(2) show ?case by simp
qed

text \<open>
  C8: a buffered direction that is the component-wise negation of the player's direction is
  not applied: \<open>applyInput\<close> returns the player as it is, and after the application of the
  buffered inputs (one player, or the loop over all of them) the direction is the same.
\<close>

theorem reverse_input_never_applied:
  assumes "idir inp = (- fst (dir p), - snd (dir p))"
  shows "applyInput p (Some (idir inp)) = p \<and>
    (getPlayer w i = Some p \<and> map_of (inputs (room w)) i = Some inp \<longrightarrow>
       (\<exists>p'. getPlayer (applyBuffered w i) i = Some p' \<and> dir p' = dir p) \<and>
       (\<exists>p'. getPlayer (applyInputs w) i = Some p' \<and> dir p' = dir p))"
  using assms applyInput_reverse [of p] applyBuffered_reverse [of w i p inp]
    foldl_applyBuffered_reverse [of w i p inp]
  by (simp add: applyInputs_def)

theorem reverse_input_never_applied_witness:
  "idir \<lparr>idir = (-1, 0), iseq = 7\<rparr> = (- fst (dir exSnake), - snd (dir exSnake)) \<and>
   getPlayer exWorld ''1'' = Some exSnake \<and>
   map_of (inputs (room exWorld)) ''1'' = Some \<lparr>idir = (-1, 0), iseq = 7\<rparr> \<and>
   applyInput exSnake (Some (-1, 0)) = exSnake \<and>
   (\<exists>p'. getPlayer (applyInputs exWorld) ''1'' = Some p' \<and> dir p' = (1, 0))"
  using reverse_input_never_applied [of "\<lparr>idir = (-1, 0), iseq = 7\<rparr>" exSnake exWorld "''1''"]
  by (simp add: getPlayer_def exWorld_def exRoom_def exSnake_def)

section \<open>What a food placement changes\<close>

lemma in_grid_cells: "(real a, real b) \<in> set grid_cells \<longleftrightarrow> a < GRID \<and> b < GRID"
  by (auto simp: grid_cells_def image_iff)

lemma grid_cells_in_bounds: "c \<in> set grid_cells \<Longrightarrow> in_bounds c"
  by (auto simp: grid_cells_def in_bounds_def)

lemma room_randomFreeCell: "room (snd (randomFreeCell w)) = room w"
  using randomFreeCell_world [of w] by auto

lemma food_placeFood: "food (room (placeFood w)) = fst (randomFreeCell w)"
  by (simp add: placeFood_def split: prod.splits)

lemma players_placeFood: "players (room (placeFood w)) = players (room w)"
  using room_randomFreeCell [of w] by (auto simp: placeFood_def split: prod.splits)

lemma body_cells_placeFood: "body_cells (room (placeFood w)) = body_cells (room w)"
  by (simp add: body_cells_def players_placeFood)

section \<open>The room after its round has ended\<close>

lemma frame_send: "frame w (send m w)"
  by (simp add: frame_def send_def)

lemma frame_resetPlayer: "frame w (resetPlayer w i)"
  using frame_trans [OF frame_safeSpawn frame_updPlayer]
  by (simp add: resetPlayer_def split: prod.splits) (metis snd_conv)

lemma startRound_fields:
  assumes "state (room w) \<noteq> Running"
  shows "state (room (startRound w)) = Running \<and>
         startedAt (room (startRound w)) = Some (clk w (clkI w)) \<and>
         endsAt (room (startRound w)) = Some (clk w (clkI w) + ROUND_MS) \<and>
         tickHandle (room (startRound w))"
proof -
  define w2 where "w2 = w\<lparr>clkI := Suc (clkI w),
     room := (room w)\<lparr>state := Running, startedAt := Some (clk w (clkI w)),
                        endsAt := Some (clk w (clkI w) + ROUND_MS)\<rparr>\<rparr>"
  define w4 where "w4 = placeFood (foldl resetPlayer w2 (map fst (players (room w2))))"
  have "frame w2 w4"
    unfolding w4_def
    by (rule frame_trans [OF frame_foldl frame_placeFood]) (rule frame_resetPlayer)
  then have "frame w2 (broadcast (MRoomMsg (room w4)) w4)"
    by (rule frame_trans) (rule frame_broadcast)
  moreover have "startRound w = setInterval (broadcast (MRoomMsg (room w4)) w4)"
    using assms by (simp add: startRound_def now_def Let_def w4_def w2_def)
  ultimately show ?thesis
    by (simp add: frame_def setInterval_def w2_def)
qed

lemma state_addPlayer: "state (room (addPlayer b i nm col w)) = state (room w)"
proof -
  define w1 where "w1 = w\<lparr>room := (room w)\<lparr>players := AList.update i (newPlayer nm col) (players (room w))\<rparr>\<rparr>"
  obtain sp w2 where sp: "safeSpawn w1 = (sp, w2)" by (cases "safeSpawn w1")
  define w3 where "w3 = updPlayer i (\<lambda>p. p\<lparr>snake := fst sp, dir := snd sp\<rparr>) w2"
  define w4 where "w4 = (if b \<or> food (room w3) = None then placeFood w3 else w3)"
  have "frame w1 w2" using frame_safeSpawn [of w1] sp by simp
  then have "frame w1 w3" unfolding w3_def by (rule frame_trans) (rule frame_updPlayer)
  then have "frame w1 w4" unfolding w4_def
    by (auto intro: frame_trans frame_placeFood)
  then have "frame w1 (broadcast (MPlayers (room (send (MJoined (room w4) i) w4))) (send (MJoined (room w4) i) w4))"
    by (meson frame_trans frame_send frame_broadcast)
  moreover have "addPlayer b i nm col w =
      broadcast (MPlayers (room (send (MJoined (room w4) i) w4))) (send (MJoined (room w4) i) w4)"
    by (simp add: addPlayer_def Let_def sp w1_def [symmetric] w3_def [symmetric] w4_def)
  ultimately show ?thesis by (simp add: frame_def w1_def)
qed

lemma state_onJoin: "state (room (onJoin i nm col w)) = state (room w)"
  by (simp add: onJoin_def state_addPlayer send_def)

lemma state_onInput: "state (room (onInput i msg w)) = state (room w)"
  by (simp add: onInput_def Let_def updPlayer_def split: option.splits prod.splits jsv.splits)

lemma state_onClose: "state (room (onClose i w)) = state (room w)"
  by (simp add: onClose_def Let_def broadcast_def)

text \<open>
  C1, as the code has it: a room that has ended is changed by no tick and by no \<open>endRound\<close>,
  and no event other than a start request changes its state; a start request received in
  state \<open>ended\<close> starts a new round (state \<open>running\<close>, \<open>startedAt\<close> and \<open>endsAt\<close> set anew from
  the clock, the tick driver started again). The only start request that does nothing is one
  received while the room is running.
\<close>

theorem ended_until_restart:
  "(state (room w) = Ended \<longrightarrow>
      tick w = Some w \<and> endRound w = w \<and>
      (\<forall>e w'. e \<noteq> EStart \<longrightarrow> handle w e = Some w' \<longrightarrow> state (room w') = Ended) \<and>
      state (room (onStart w)) = Running \<and>
      startedAt (room (onStart w)) = Some (clk w (clkI w)) \<and>
      endsAt (room (onStart w)) = Some (clk w (clkI w) + ROUND_MS) \<and>
      tickHandle (room (onStart w))) \<and>
   (state (room w) = Running \<longrightarrow> onStart w = w)"
proof (intro conjI impI)
  assume e: "state (room w) = Ended"
  show t: "tick w = Some w" using e by (simp add: tick_def)
  show "endRound w = w" using e by (simp add: endRound_def)
  show "\<forall>e w'. e \<noteq> EStart \<longrightarrow> handle w e = Some w' \<longrightarrow> state (room w') = Ended"
  proof (intro allI impI)
    fix ev w'
    assume "ev \<noteq> EStart" and "handle w ev = Some w'"
    then show "state (room w') = Ended"
      using e t by (cases ev) (auto simp: state_onJoin state_onInput state_onClose)
  qed
  from e have "state (room w) \<noteq> Running" by simp
  from startRound_fields [OF this]
  show "state (room (onStart w)) = Running"
    and "startedAt (room (onStart w)) = Some (clk w (clkI w))"
    and "endsAt (room (onStart w)) = Some (clk w (clkI w) + ROUND_MS)"
    and "tickHandle (room (onStart w))"
    by (simp_all add: onStart_def)
next
  assume "state (room w) = Running"
  then show "onStart w = w" by (simp add: onStart_def startRound_def)
qed

theorem ended_until_restart_witness:
  "state (room exEnded) = Ended \<and> tick exEnded = Some exEnded \<and>
   ETick \<noteq> EStart \<and> handle exEnded ETick = Some exEnded \<and>
   state (room (onStart exEnded)) = Running \<and> tickHandle (room (onStart exEnded)) \<and>
   state (room exWorld) = Running \<and> onStart exWorld = exWorld"
proof -
  have a: "state (room exEnded) = Ended" by (simp add: exEnded_def)
  have b: "state (room exWorld) = Running" by (simp add: exWorld_def exRoom_def)
  show ?thesis
    using a b ended_until_restart [of exEnded] ended_until_restart [of exWorld] by simp
qed

text \<open>
  C1 as stated fails: \<open>startRound\<close> returns early only when the room is running, so a start
  request received after the tick that ended the round makes the room run again, with new
  times and a new timer.
\<close>

theorem ended_is_terminal_counterexample:
  "run exLate [ETick] = Some exEnded \<and>
   state (room exEnded) = Ended \<and> startedAt (room exEnded) = Some 1000 \<and>
   endsAt (room exEnded) = Some 121000 \<and> \<not> tickHandle (room exEnded) \<and>
   run exLate [ETick, EStart] = Some (onStart exEnded) \<and>
   state (room (onStart exEnded)) = Running \<and> startedAt (room (onStart exEnded)) = Some 125050 \<and>
   endsAt (room (onStart exEnded)) = Some 245050 \<and> tickHandle (room (onStart exEnded))"
proof -
  have t: "tick exLate = Some exEnded"
    by (simp add: tick_def Let_def now_def roundOver_def endRound_def broadcast_def
        exLate_def exEnded_def exWorld_def exRoom_def)
  have "state (room exEnded) \<noteq> Running" by (simp add: exEnded_def)
  from startRound_fields [OF this] t show ?thesis
    by (simp add: onStart_def exEnded_def exLate_def exWorld_def exRoom_def ROUND_MS_def)
qed

section \<open>The movement accumulator\<close>

lemma moveLoop_stop: "moveAcc (room w) < step \<Longrightarrow> moveLoop step w = Some w"
  by (subst moveLoop.simps) simp

lemma moveLoop_go: "step \<le> moveAcc (room w) \<Longrightarrow> moveLoop step w = moveLoop step (loopBody step w)"
  by (subst moveLoop.simps) simp

lemma frame_loopBody:
  "frame (w\<lparr>room := (room w)\<lparr>moveAcc := moveAcc (room w) - step\<rparr>\<rparr>) (loopBody step w)"
  using frame_trans [OF frame_applyInputs frame_moveStep, of w]
  by (simp add: loopBody_def Let_def frame_def)

lemma moveAcc_loopBody: "moveAcc (room (loopBody step w)) = moveAcc (room w) - step"
  using frame_loopBody [of w step] by (simp add: frame_def)

lemma moveLoop_two:
  assumes "0 < step" "moveAcc (room w) \<le> step * 2"
  shows "\<exists>u. (u = w \<or> u = loopBody step w \<or> u = loopBody step (loopBody step w)) \<and>
             moveLoop step w = Some u"
proof (cases "moveAcc (room w) < step")
  case True
  then show ?thesis by (simp add: moveLoop_stop)
next
  case False
  then have g1: "moveLoop step w = moveLoop step (loopBody step w)"
    by (simp add: moveLoop_go)
  show ?thesis
  proof (cases "moveAcc (room (loopBody step w)) < step")
    case True
    then show ?thesis using g1 by (simp add: moveLoop_stop)
  next
    case False
    then have g2: "moveLoop step (loopBody step w) = moveLoop step (loopBody step (loopBody step w))"
      by (simp add: moveLoop_go)
    have "moveAcc (room (loopBody step (loopBody step w))) < step"
      using assms by (simp add: moveAcc_loopBody)
    then show ?thesis using g1 g2 by (simp add: moveLoop_stop)
  qed
qed

lemma frame_beforeLoop_pre: "frame v (applyInputs (foldl maybeRespawn v xs))"
  by (rule frame_trans [OF frame_foldl frame_applyInputs]) (rule frame_maybeRespawn)

lemma beforeLoop_fields:
  "cps (room (beforeLoop w)) = cps (room w) \<and>
   moveAcc (room (beforeLoop w)) =
     (if cps (room w) = 0 then moveAcc (room w) + TICK_MS / 1000
      else min (moveAcc (room w) + TICK_MS / 1000) (1 / cps (room w) * 2))"
proof -
  define v where "v = snd (now (w\<lparr>room := (room w)\<lparr>tickNo := Suc (tickNo (room w))\<rparr>\<rparr>))"
  define u where "u = applyInputs (foldl maybeRespawn v (map fst (players (room v))))"
  have "frame v u" unfolding u_def by (rule frame_beforeLoop_pre)
  then have "cps (room u) = cps (room w)" "moveAcc (room u) = moveAcc (room w)"
    by (simp_all add: frame_def v_def now_def)
  moreover have "beforeLoop w = accumulate u"
    by (simp add: beforeLoop_def Let_def u_def v_def)
  ultimately show ?thesis by (simp add: accumulate_def Let_def)
qed

lemma roundOver_tickNo: "roundOver t (r\<lparr>tickNo := n\<rparr>) = roundOver t r"
  by (simp add: roundOver_def)

lemma tick_running:
  assumes "state (room w) = Running" "\<not> roundOver (clk w (clkI w)) (room w)"
  shows "tick w =
     (case (if cps (room w) = 0 then Some (beforeLoop w)
            else moveLoop (1 / cps (room w)) (beforeLoop w)) of
        None \<Rightarrow> None
      | Some u \<Rightarrow> Some (broadcast (MState (clk w (clkI w)) (room u)) u))"
proof -
  have "cps (room (beforeLoop w)) = cps (room w)" by (simp add: beforeLoop_fields)
  then show ?thesis
    using assms
    by (simp add: tick_def Let_def now_def tickBody_def roundOver_tickNo beforeLoop_def)
qed

text \<open>
  C2, as the code has it: on a tick of a running room whose round is not over (speed
  positive), the accumulator is increased by the fixed tick period, \<open>TICK_MS / 1000 = 1/20\<close>
  of a second, whatever time has really passed, and is then clamped to two step-durations
  \<open>1 / cps\<close>; the loop that follows makes no, one or two movement steps.
\<close>

theorem tick_accumulator_fixed_increment:
  assumes "state (room w) = Running" "\<not> roundOver (clk w (clkI w)) (room w)" "0 < cps (room w)"
  shows "moveAcc (room (beforeLoop w)) = min (moveAcc (room w) + 1 / 20) (1 / cps (room w) * 2) \<and>
    (\<exists>u. (u = beforeLoop w \<or> u = loopBody (1 / cps (room w)) (beforeLoop w) \<or>
          u = loopBody (1 / cps (room w)) (loopBody (1 / cps (room w)) (beforeLoop w))) \<and>
         tick w = Some (broadcast (MState (clk w (clkI w)) (room u)) u))"
proof
  show acc: "moveAcc (room (beforeLoop w)) = min (moveAcc (room w) + 1 / 20) (1 / cps (room w) * 2)"
    using assms(3) by (simp add: beforeLoop_fields TICK_MS_def TICK_HZ_def)
  have "0 < 1 / cps (room w)" using assms(3) by simp
  moreover have "moveAcc (room (beforeLoop w)) \<le> 1 / cps (room w) * 2"
    unfolding acc by simp
  ultimately obtain u where u: "u = beforeLoop w \<or> u = loopBody (1 / cps (room w)) (beforeLoop w) \<or>
          u = loopBody (1 / cps (room w)) (loopBody (1 / cps (room w)) (beforeLoop w))"
      "moveLoop (1 / cps (room w)) (beforeLoop w) = Some u"
    using moveLoop_two by blast
  have "tick w = Some (broadcast (MState (clk w (clkI w)) (room u)) u)"
    using assms u(2) by (simp add: tick_running)
  with u(1) show "\<exists>u. (u = beforeLoop w \<or> u = loopBody (1 / cps (room w)) (beforeLoop w) \<or>
          u = loopBody (1 / cps (room w)) (loopBody (1 / cps (room w)) (beforeLoop w))) \<and>
         tick w = Some (broadcast (MState (clk w (clkI w)) (room u)) u)"
    by blast
qed

theorem tick_accumulator_fixed_increment_witness:
  "state (room exSolo) = Running \<and> \<not> roundOver (clk exSolo (clkI exSolo)) (room exSolo) \<and>
   0 < cps (room exSolo) \<and> moveAcc (room (beforeLoop exSolo)) = 1 / 20 \<and>
   (\<exists>u. (u = beforeLoop exSolo \<or> u = loopBody (2 / 15) (beforeLoop exSolo) \<or>
          u = loopBody (2 / 15) (loopBody (2 / 15) (beforeLoop exSolo))) \<and>
         tick exSolo = Some (broadcast (MState 3000 (room u)) u))"
proof -
  have a: "state (room exSolo) = Running"
    by (simp add: exSolo_def exWorld_def exRoom_def)
  have b: "\<not> roundOver (clk exSolo (clkI exSolo)) (room exSolo)"
    by (simp add: exSolo_def exWorld_def exRoom_def roundOver_def)
  have c: "0 < cps (room exSolo)"
    by (simp add: exSolo_def exWorld_def exRoom_def BASE_CPS_def)
  have d: "cps (room exSolo) = 15 / 2" "moveAcc (room exSolo) = 0" "clk exSolo (clkI exSolo) = 3000"
    by (simp_all add: exSolo_def exWorld_def exRoom_def BASE_CPS_def)
  show ?thesis
    using a b c tick_accumulator_fixed_increment [OF a b c] unfolding d by simp
qed

lemmas ex_defs = exSolo_def exWorld_def exRoom_def exSnake_def exCorpse_def BASE_CPS_def

lemmas tick_defs = tick_def tickBody_def roundOver_def now_def Let_def maybeRespawn_def getPlayer_def
  applyInputs_def applyBuffered_def applyInput_def updPlayer_def accumulate_def TICK_MS_def TICK_HZ_def
  broadcast_def

lemmas step_defs = loopBody_def moveStep_def next_heads_def nextHead_def body_cells_def resolveMove_def
  killPlayer_def GRID_def

text \<open>
  C2 as stated fails: two ticks whose clock readings are a second apart add \<open>1/20\<close> each to
  the accumulator and move nothing, where adding the elapsed second would reach the clamp
  \<open>4/15\<close> and make two steps.
\<close>

theorem accumulator_elapsed_time_counterexample:
  "clk exSolo 0 = 3000 \<and> clk exSolo 1 = 4000 \<and>
   map_option (moveAcc \<circ> room) (run exSolo [ETick]) = Some (1 / 20) \<and>
   map_option (moveAcc \<circ> room) (run exSolo [ETick, ETick]) = Some (1 / 10) \<and>
   map_option (map (snake \<circ> snd) \<circ> players \<circ> room) (run exSolo [ETick, ETick])
     = Some [[(1, 3), (2, 3), (3, 3)]] \<and>
   moveAcc (room (accumulate exSolo)) = 1 / 20 \<and>
   moveAcc (room (accumulate_spec ((4000 - 3000) / 1000) exSolo)) = 4 / 15"
  by (simp add: ex_defs tick_defs moveLoop_stop accumulate_spec_def)

section \<open>One movement step, player by player\<close>

lemma getPlayer_placeFood: "getPlayer (placeFood w) j = getPlayer w j"
  by (simp add: getPlayer_def players_placeFood)

lemma getPlayer_resolveMove_other:
  "j \<noteq> i \<Longrightarrow> getPlayer (resolveMove body w (j, m)) i = getPlayer w i"
  by (simp add: resolveMove_def Let_def getPlayer_killPlayer getPlayer_placeFood getPlayer_updPlayer)

lemma getPlayer_foldl_resolveMove_other:
  "i \<notin> fst ` set ms \<Longrightarrow> getPlayer (foldl (resolveMove body) w ms) i = getPlayer w i"
proof (induction ms arbitrary: w)
  case Nil
  show ?case by simp
next
  case (Cons mv ms)
  obtain j m where mv: "mv = (j, m)" by (cases mv)
  with Cons.prems have "j \<noteq> i" "i \<notin> fst ` set ms" by auto
  then show ?case
    using Cons.IH [of "resolveMove body w (j, m)"] mv
    by (simp add: getPlayer_resolveMove_other)
qed

lemma food_updPlayer: "food (room (updPlayer i f w)) = food (room w)"
  by (simp add: updPlayer_def)

lemma resolveMove_ok:
  assumes "in_bounds m" "m \<notin> body"
  shows "resolveMove body w (i, m) =
     (if food (room w) = Some m
      then placeFood (updPlayer i (\<lambda>p. p\<lparr>score := score p + 10\<rparr>)
                       (updPlayer i (\<lambda>p. p\<lparr>snake := snake p @ [m]\<rparr>) w))
      else updPlayer i (\<lambda>p. p\<lparr>snake := tl (snake p)\<rparr>)
             (updPlayer i (\<lambda>p. p\<lparr>snake := snake p @ [m]\<rparr>) w))"
  using assms by (simp add: resolveMove_def in_bounds_def Let_def food_updPlayer not_le)

lemma resolveMove_fail:
  assumes "\<not> (in_bounds m \<and> m \<notin> body)"
  shows "\<exists>r. resolveMove body w (i, m) = killPlayer i r w"
  using assms by (auto simp: resolveMove_def in_bounds_def not_le not_less)

lemma split_move:
  assumes "(i, m) \<in> set ms" "distinct (map fst ms)"
  shows "\<exists>ms1 ms2. ms = ms1 @ (i, m) # ms2 \<and> i \<notin> fst ` set ms1 \<and> i \<notin> fst ` set ms2 \<and>
           takeWhile (\<lambda>mv. fst mv \<noteq> i) ms = ms1"
proof -
  from assms(1) obtain ms1 ms2 where ms: "ms = ms1 @ (i, m) # ms2"
    by (auto simp: in_set_conv_decomp)
  with assms(2) have d: "i \<notin> fst ` set ms1" "i \<notin> fst ` set ms2" by auto
  then have "takeWhile (\<lambda>mv. fst mv \<noteq> i) ms = ms1"
    unfolding ms by (subst takeWhile_append2) auto
  with ms d show ?thesis by blast
qed

lemma distinct_next_heads:
  assumes "distinct (map fst (players r))"
  shows "distinct (map fst (next_heads r))"
proof -
  have "map fst (next_heads r) = map fst (filter (\<lambda>(i, p). alive p \<and> snake p \<noteq> []) (players r))"
    by (simp add: next_heads_def case_prod_beta comp_def)
  then show ?thesis using assms by (simp add: distinct_map_filter)
qed

lemma next_heads_mem:
  assumes "getPlayer w i = Some p" "alive p" "snake p \<noteq> []"
  shows "(i, nextHead p) \<in> set (next_heads (room w))"
proof -
  have "(i, p) \<in> set (players (room w))"
    using assms(1) by (simp add: getPlayer_def map_of_SomeD)
  then show ?thesis using assms(2,3) by (force simp: next_heads_def)
qed

text \<open>The player \<open>i\<close> after the step is the player after its own move, made in \<open>beforeMove\<close>.\<close>

lemma moveStep_player:
  assumes "distinct (map fst (players (room w)))" "getPlayer w i = Some p" "alive p" "snake p \<noteq> []"
  shows "getPlayer (beforeMove w i) i = Some p \<and>
         getPlayer (moveStep w) i =
           getPlayer (resolveMove (set (body_cells (room w))) (beforeMove w i) (i, nextHead p)) i"
proof -
  let ?R = "resolveMove (set (body_cells (room w)))"
  obtain ms1 ms2 where ms: "next_heads (room w) = ms1 @ (i, nextHead p) # ms2"
      "i \<notin> fst ` set ms1" "i \<notin> fst ` set ms2"
      "takeWhile (\<lambda>mv. fst mv \<noteq> i) (next_heads (room w)) = ms1"
    using split_move [OF next_heads_mem [OF assms(2,3,4)] distinct_next_heads [OF assms(1)]]
    by blast
  have b: "beforeMove w i = foldl ?R w ms1" by (simp add: beforeMove_def ms(4))
  have "moveStep w = foldl ?R (?R (beforeMove w i) (i, nextHead p)) ms2"
    by (simp add: moveStep_def ms(1) b)
  then have "getPlayer (moveStep w) i = getPlayer (?R (beforeMove w i) (i, nextHead p)) i"
    by (simp add: getPlayer_foldl_resolveMove_other [OF ms(3)])
  moreover have "getPlayer (beforeMove w i) i = Some p"
    by (simp add: b getPlayer_foldl_resolveMove_other [OF ms(2)] assms(2))
  ultimately show ?thesis by simp
qed

lemma moveStep_success:
  assumes "distinct (map fst (players (room w)))" "getPlayer w i = Some p" "alive p" "snake p \<noteq> []"
    "in_bounds (nextHead p)" "nextHead p \<notin> set (body_cells (room w))"
  shows "\<exists>p'. getPlayer (moveStep w) i = Some p' \<and> alive p' \<and>
     (if food (room (beforeMove w i)) = Some (nextHead p)
      then score p' = score p + 10 \<and> snake p' = snake p @ [nextHead p] \<and>
           resolveMove (set (body_cells (room w))) (beforeMove w i) (i, nextHead p) =
             placeFood (updPlayer i (\<lambda>q. q\<lparr>score := score q + 10\<rparr>)
               (updPlayer i (\<lambda>q. q\<lparr>snake := snake q @ [nextHead p]\<rparr>) (beforeMove w i)))
      else score p' = score p \<and> snake p' = tl (snake p) @ [nextHead p] \<and>
           food (room (resolveMove (set (body_cells (room w))) (beforeMove w i) (i, nextHead p))) =
             food (room (beforeMove w i)))"
proof -
  let ?v = "beforeMove w i"
  let ?m = "nextHead p"
  have v: "getPlayer ?v i = Some p"
    and s: "getPlayer (moveStep w) i = getPlayer (resolveMove (set (body_cells (room w))) ?v (i, ?m)) i"
    using moveStep_player [OF assms(1-4)] by simp_all
  note r = resolveMove_ok [OF assms(5,6), of ?v i]
  show ?thesis
  proof (cases "food (room ?v) = Some ?m")
    case True
    then show ?thesis
      using assms(3) r v s by (simp add: getPlayer_placeFood getPlayer_updPlayer)
  next
    case False
    then show ?thesis
      using assms(3,4) r v s by (simp add: getPlayer_updPlayer food_updPlayer)
  qed
qed

lemma moveStep_failure:
  assumes "distinct (map fst (players (room w)))" "getPlayer w i = Some p" "alive p" "snake p \<noteq> []"
    "\<not> (in_bounds (nextHead p) \<and> nextHead p \<notin> set (body_cells (room w)))"
  shows "\<exists>p'. getPlayer (moveStep w) i = Some p' \<and> \<not> alive p' \<and> snake p' = []"
proof -
  have v: "getPlayer (beforeMove w i) i = Some p"
    and s: "getPlayer (moveStep w) i =
        getPlayer (resolveMove (set (body_cells (room w))) (beforeMove w i) (i, nextHead p)) i"
    using moveStep_player [OF assms(1-4)] by simp_all
  obtain r where "resolveMove (set (body_cells (room w))) (beforeMove w i) (i, nextHead p) =
      killPlayer i r (beforeMove w i)"
    using resolveMove_fail [OF assms(5)] by blast
  then show ?thesis
    using assms(3) v s by (simp add: getPlayer_killPlayer)
qed

lemma moveStep_survivor:
  assumes "distinct (map fst (players (room w)))" "getPlayer w i = Some p" "alive p" "snake p \<noteq> []"
    "in_bounds (nextHead p)" "nextHead p \<notin> set (body_cells (room w))"
  shows "\<exists>p'. getPlayer (moveStep w) i = Some p' \<and> alive p' \<and> last (snake p') = nextHead p"
proof -
  let ?c = "food (room (beforeMove w i)) = Some (nextHead p)"
  from moveStep_success [OF assms] obtain p' where p': "getPlayer (moveStep w) i = Some p'" "alive p'"
    and c: "?c \<longrightarrow> snake p' = snake p @ [nextHead p]"
           "\<not> ?c \<longrightarrow> snake p' = tl (snake p) @ [nextHead p]"
    by (cases ?c) auto
  have "last (snake p') = nextHead p"
    using c by (cases ?c) simp_all
  with p' show ?thesis by blast
qed

lemmas duel_defs = exDuel_def exWorld_def exRoom_def exSnake_def

section \<open>Food or tail\<close>

text \<open>
  C3: for a player who is alive and has a body, and whose new head is on the board and outside
  the occupancy set taken before the step: after the step the player is alive and, if the new
  head is the food cell current when the move is resolved, the score is up by exactly 10,
  the body is the old body with the new head appended (one cell longer) and the move ends in
  a food placement; otherwise the score is the same, the body is the old body without its
  tail cell and with the new head (same length), and the move leaves the food where it is.
\<close>

theorem moveStep_food_or_tail:
  assumes "distinct (map fst (players (room w)))" "getPlayer w i = Some p" "alive p" "snake p \<noteq> []"
    "in_bounds (nextHead p)" "nextHead p \<notin> set (body_cells (room w))"
  shows "\<exists>p'. getPlayer (moveStep w) i = Some p' \<and> alive p' \<and>
     (if food (room (beforeMove w i)) = Some (nextHead p)
      then score p' = score p + 10 \<and> snake p' = snake p @ [nextHead p] \<and>
           length (snake p') = length (snake p) + 1 \<and>
           resolveMove (set (body_cells (room w))) (beforeMove w i) (i, nextHead p) =
             placeFood (updPlayer i (\<lambda>q. q\<lparr>score := score q + 10\<rparr>)
               (updPlayer i (\<lambda>q. q\<lparr>snake := snake q @ [nextHead p]\<rparr>) (beforeMove w i)))
      else score p' = score p \<and> snake p' = tl (snake p) @ [nextHead p] \<and>
           length (snake p') = length (snake p) \<and>
           food (room (resolveMove (set (body_cells (room w))) (beforeMove w i) (i, nextHead p))) =
             food (room (beforeMove w i)))"
proof -
  from moveStep_success [OF assms] obtain p' where p': "getPlayer (moveStep w) i = Some p'" "alive p'"
    "if food (room (beforeMove w i)) = Some (nextHead p)
      then score p' = score p + 10 \<and> snake p' = snake p @ [nextHead p] \<and>
           resolveMove (set (body_cells (room w))) (beforeMove w i) (i, nextHead p) =
             placeFood (updPlayer i (\<lambda>q. q\<lparr>score := score q + 10\<rparr>)
               (updPlayer i (\<lambda>q. q\<lparr>snake := snake q @ [nextHead p]\<rparr>) (beforeMove w i)))
      else score p' = score p \<and> snake p' = tl (snake p) @ [nextHead p] \<and>
           food (room (resolveMove (set (body_cells (room w))) (beforeMove w i) (i, nextHead p))) =
             food (room (beforeMove w i))"
    by blast
  have "length (tl (snake p) @ [nextHead p]) = length (snake p)"
    using assms(4) by (cases "snake p") simp_all
  with p' show ?thesis
    by (cases "food (room (beforeMove w i)) = Some (nextHead p)") auto
qed

theorem moveStep_food_or_tail_witness:
  "distinct (map fst (players (room exDuel))) \<and> getPlayer exDuel ''1'' = Some exSnake \<and>
   alive exSnake \<and> snake exSnake \<noteq> [] \<and> nextHead exSnake = (4, 3) \<and> in_bounds (4, 3) \<and>
   (4, 3) \<notin> set (body_cells (room exDuel)) \<and> food (room (beforeMove exDuel ''1'')) = Some (4, 3) \<and>
   (\<exists>p'. getPlayer (moveStep exDuel) ''1'' = Some p' \<and> alive p' \<and> score p' = 10 \<and>
         snake p' = [(1, 3), (2, 3), (3, 3), (4, 3)]) \<and>
   getPlayer exSolo ''1'' = Some exSnake \<and> (4, 3) \<notin> set (body_cells (room exSolo)) \<and>
   food (room (beforeMove exSolo ''1'')) = Some (5, 5) \<and>
   (\<exists>p'. getPlayer (moveStep exSolo) ''1'' = Some p' \<and> alive p' \<and> score p' = 0 \<and>
         snake p' = [(2, 3), (3, 3), (4, 3)])"
proof -
  have h: "nextHead exSnake = (4, 3)" "alive exSnake" "snake exSnake \<noteq> []" "in_bounds (nextHead exSnake)"
    "score exSnake = 0" "snake exSnake = [(1, 3), (2, 3), (3, 3)]"
    by (simp_all add: nextHead_def exSnake_def in_bounds_def GRID_def)
  have d: "distinct (map fst (players (room exDuel)))" "getPlayer exDuel ''1'' = Some exSnake"
    "nextHead exSnake \<notin> set (body_cells (room exDuel))"
    "food (room (beforeMove exDuel ''1'')) = Some (nextHead exSnake)"
    unfolding h(1)
    by (simp_all add: duel_defs getPlayer_def body_cells_def beforeMove_def next_heads_def nextHead_def)
  have s: "distinct (map fst (players (room exSolo)))" "getPlayer exSolo ''1'' = Some exSnake"
    "nextHead exSnake \<notin> set (body_cells (room exSolo))"
    "food (room (beforeMove exSolo ''1'')) = Some (5, 5)"
    unfolding h(1)
    by (simp_all add: exSolo_def duel_defs getPlayer_def body_cells_def beforeMove_def next_heads_def nextHead_def)
  show ?thesis
    using moveStep_food_or_tail [OF d(1,2) h(2,3,4) d(3)] moveStep_food_or_tail [OF s(1,2) h(2,3,4) s(3)]
      h d s
    by simp blast
qed

section \<open>Collisions against the occupancy before the step\<close>

text \<open>
  C4: whether a mover survives a step depends on nothing but the board and the occupancy set
  taken before the step: it is alive after the step exactly when its new head is on the board
  and outside that set. In particular two players whose new heads are the same cell, vacant
  before the step, both survive with their heads on that cell.
\<close>

theorem moveStep_pre_move_occupancy:
  assumes "distinct (map fst (players (room w)))"
  shows "(\<forall>i p. getPlayer w i = Some p \<and> alive p \<and> snake p \<noteq> [] \<longrightarrow>
            (\<exists>p'. getPlayer (moveStep w) i = Some p' \<and>
               (alive p' \<longleftrightarrow> in_bounds (nextHead p) \<and> nextHead p \<notin> set (body_cells (room w))))) \<and>
         (\<forall>i j p q. i \<noteq> j \<and> getPlayer w i = Some p \<and> getPlayer w j = Some q \<and>
              alive p \<and> alive q \<and> snake p \<noteq> [] \<and> snake q \<noteq> [] \<and> nextHead p = nextHead q \<and>
              in_bounds (nextHead p) \<and> nextHead p \<notin> set (body_cells (room w)) \<longrightarrow>
            (\<exists>p' q'. getPlayer (moveStep w) i = Some p' \<and> getPlayer (moveStep w) j = Some q' \<and>
               alive p' \<and> alive q' \<and> last (snake p') = nextHead p \<and> last (snake q') = nextHead p))"
proof (intro conjI allI impI)
  fix i p
  assume a: "getPlayer w i = Some p \<and> alive p \<and> snake p \<noteq> []"
  then have a': "getPlayer w i = Some p" "alive p" "snake p \<noteq> []" by simp_all
  show "\<exists>p'. getPlayer (moveStep w) i = Some p' \<and>
          (alive p' \<longleftrightarrow> in_bounds (nextHead p) \<and> nextHead p \<notin> set (body_cells (room w)))"
  proof (cases "in_bounds (nextHead p) \<and> nextHead p \<notin> set (body_cells (room w))")
    case True
    then have "in_bounds (nextHead p)" "nextHead p \<notin> set (body_cells (room w))" by simp_all
    from moveStep_survivor [OF assms a' this] True show ?thesis by blast
  next
    case False
    from moveStep_failure [OF assms a' False] False show ?thesis by blast
  qed
next
  fix i j p q
  assume a: "i \<noteq> j \<and> getPlayer w i = Some p \<and> getPlayer w j = Some q \<and>
              alive p \<and> alive q \<and> snake p \<noteq> [] \<and> snake q \<noteq> [] \<and> nextHead p = nextHead q \<and>
              in_bounds (nextHead p) \<and> nextHead p \<notin> set (body_cells (room w))"
  then have p: "getPlayer w i = Some p" "alive p" "snake p \<noteq> []" "in_bounds (nextHead p)"
      "nextHead p \<notin> set (body_cells (room w))"
    and q: "getPlayer w j = Some q" "alive q" "snake q \<noteq> []" "in_bounds (nextHead q)"
      "nextHead q \<notin> set (body_cells (room w))"
    and e: "nextHead q = nextHead p"
    by auto
  from moveStep_survivor [OF assms p] obtain p' where
    p': "getPlayer (moveStep w) i = Some p'" "alive p'" "last (snake p') = nextHead p" by blast
  from moveStep_survivor [OF assms q] obtain q' where
    q': "getPlayer (moveStep w) j = Some q'" "alive q'" "last (snake q') = nextHead p"
    unfolding e by blast
  from p' q'
  show "\<exists>p' q'. getPlayer (moveStep w) i = Some p' \<and> getPlayer (moveStep w) j = Some q' \<and>
               alive p' \<and> alive q' \<and> last (snake p') = nextHead p \<and> last (snake q') = nextHead p"
    by blast
qed

theorem moveStep_pre_move_occupancy_witness:
  "distinct (map fst (players (room exDuel))) \<and> ''1'' \<noteq> ''2'' \<and>
   getPlayer exDuel ''1'' = Some exSnake \<and>
   getPlayer exDuel ''2'' = Some (exSnake\<lparr>name := ''bob'', snake := [(7, 3), (6, 3), (5, 3)], dir := (-1, 0)\<rparr>) \<and>
   nextHead exSnake = (4, 3) \<and>
   nextHead (exSnake\<lparr>name := ''bob'', snake := [(7, 3), (6, 3), (5, 3)], dir := (-1, 0)\<rparr>) = (4, 3) \<and>
   in_bounds (4, 3) \<and> (4, 3) \<notin> set (body_cells (room exDuel)) \<and>
   (\<exists>p' q'. getPlayer (moveStep exDuel) ''1'' = Some p' \<and> getPlayer (moveStep exDuel) ''2'' = Some q' \<and>
       alive p' \<and> alive q' \<and> last (snake p') = (4, 3) \<and> last (snake q') = (4, 3))"
proof -
  let ?q = "exSnake\<lparr>name := ''bob'', snake := [(7, 3), (6, 3), (5, 3)], dir := (-1, 0)\<rparr>"
  have h: "nextHead exSnake = (4, 3)" "alive exSnake" "snake exSnake \<noteq> []" "in_bounds (4, 3)"
    "nextHead ?q = (4, 3)" "alive ?q" "snake ?q \<noteq> []"
    by (simp_all add: nextHead_def exSnake_def in_bounds_def GRID_def)
  have d: "distinct (map fst (players (room exDuel)))" "getPlayer exDuel ''1'' = Some exSnake"
    "getPlayer exDuel ''2'' = Some ?q" "(4, 3) \<notin> set (body_cells (room exDuel))"
    by (simp_all add: duel_defs getPlayer_def body_cells_def)
  note r = moveStep_pre_move_occupancy [OF d(1), THEN conjunct2, rule_format, of "''1''" "''2''" exSnake ?q]
  have "\<exists>p' q'. getPlayer (moveStep exDuel) ''1'' = Some p' \<and> getPlayer (moveStep exDuel) ''2'' = Some q' \<and>
         alive p' \<and> alive q' \<and> last (snake p') = nextHead exSnake \<and> last (snake q') = nextHead exSnake"
    by (rule r) (simp add: h d)
  then have "\<exists>p' q'. getPlayer (moveStep exDuel) ''1'' = Some p' \<and> getPlayer (moveStep exDuel) ''2'' = Some q' \<and>
       alive p' \<and> alive q' \<and> last (snake p') = (4, 3) \<and> last (snake q') = (4, 3)"
    unfolding h(1) .
  with h(1,4,5) d show ?thesis by simp
qed

section \<open>Food is placed off the bodies\<close>

lemma foodOffBodies_placeFood: "foodOffBodies (placeFood w)"
proof (cases "food (room (placeFood w))")
  case None
  then show ?thesis by (simp add: foodOffBodies_def)
next
  case (Some c)
  then have "c \<in> set (free_cells (room w))"
    by (simp add: food_placeFood randomFreeCell_free)
  then have "c \<notin> set (body_cells (room (placeFood w)))"
    by (simp add: free_cells_def body_cells_placeFood)
  with Some show ?thesis by (simp add: foodOffBodies_def)
qed

lemma foodOffBodies_same:
  assumes "foodOffBodies v" "food (room w) = food (room v)" "players (room w) = players (room v)"
  shows "foodOffBodies w"
proof -
  have "body_cells (room w) = body_cells (room v)"
    using assms(3) by (simp add: body_cells_def)
  with assms(1,2) show ?thesis by (auto simp: foodOffBodies_def split: option.splits)
qed

lemma foodOffBodies_startRound:
  assumes "state (room w) \<noteq> Running"
  shows "foodOffBodies (startRound w)"
proof -
  define w2 where "w2 = w\<lparr>clkI := Suc (clkI w),
     room := (room w)\<lparr>state := Running, startedAt := Some (clk w (clkI w)),
                        endsAt := Some (clk w (clkI w) + ROUND_MS)\<rparr>\<rparr>"
  define w4 where "w4 = placeFood (foldl resetPlayer w2 (map fst (players (room w2))))"
  have "startRound w = setInterval (broadcast (MRoomMsg (room w4)) w4)"
    using assms by (simp add: startRound_def now_def Let_def w4_def w2_def)
  moreover have "foodOffBodies w4" unfolding w4_def by (rule foodOffBodies_placeFood)
  ultimately show ?thesis
    by (auto intro: foodOffBodies_same simp: setInterval_def broadcast_def)
qed

lemma foodOffBodies_addPlayer:
  assumes "b \<or> food (room w) = None"
  shows "foodOffBodies (addPlayer b i nm col w)"
proof -
  define w1 where "w1 = w\<lparr>room := (room w)\<lparr>players := AList.update i (newPlayer nm col) (players (room w))\<rparr>\<rparr>"
  obtain n where n: "snd (safeSpawn w1) = w1\<lparr>rndI := n\<rparr>"
    using safeSpawn_world by blast
  define w3 where "w3 = updPlayer i (\<lambda>p. p\<lparr>snake := fst (fst (safeSpawn w1)), dir := snd (fst (safeSpawn w1))\<rparr>)
     (snd (safeSpawn w1))"
  define w5 where "w5 = send (MJoined (room (placeFood w3)) i) (placeFood w3)"
  have "food (room w3) = food (room w)"
    unfolding w3_def n by (simp add: food_updPlayer w1_def)
  with assms have "b \<or> food (room w3) = None" by simp
  then have "addPlayer b i nm col w = broadcast (MPlayers (room w5)) w5"
    by (auto simp: addPlayer_def Let_def w1_def [symmetric] w3_def w5_def split: prod.splits)
  moreover have "foodOffBodies (placeFood w3)" by (rule foodOffBodies_placeFood)
  ultimately show ?thesis
    by (auto intro: foodOffBodies_same simp: w5_def send_def broadcast_def)
qed

text \<open>
  C5: every placement of food goes through \<open>placeFood\<close>. The cell it chooses is covered by
  no player's body at that moment (nor is it the cell the food was on, and it lies on the
  board); a cell is chosen whenever one is free; and when every cell of the board is covered
  by a body the food becomes absent. So the food is off every body in the room that a round
  start leaves, that the creation of a room leaves, and that a join leaves when there was no
  food; the placement on a consumption is the last thing the eating move does.
\<close>

theorem placeFood_off_bodies:
  "(\<forall>c. food (room (placeFood w)) = Some c \<longrightarrow>
      c \<notin> set (body_cells (room (placeFood w))) \<and> c \<notin> set (body_cells (room w)) \<and>
      in_bounds c \<and> food (room w) \<noteq> Some c) \<and>
   (free_cells (room w) \<noteq> [] \<longrightarrow> food (room (placeFood w)) \<noteq> None) \<and>
   ((\<forall>c \<in> set grid_cells. c \<in> set (body_cells (room w))) \<longrightarrow> food (room (placeFood w)) = None) \<and>
   (state (room w) \<noteq> Running \<longrightarrow> foodOffBodies (startRound w)) \<and>
   foodOffBodies (onCreate cd k nm col w) \<and>
   (food (room w) = None \<and> length (players (room w)) < 4 \<longrightarrow> foodOffBodies (onJoin k nm col w))"
proof (intro conjI allI impI)
  fix c
  assume "food (room (placeFood w)) = Some c"
  then have "c \<in> set (free_cells (room w))"
    by (simp add: food_placeFood randomFreeCell_free)
  then have c: "c \<in> set grid_cells" "c \<notin> set (body_cells (room w))" "food (room w) \<noteq> Some c"
    by (simp_all add: free_cells_def)
  show "c \<notin> set (body_cells (room (placeFood w)))" using c(2) by (simp add: body_cells_placeFood)
  show "c \<notin> set (body_cells (room w))" by (rule c(2))
  show "in_bounds c" using c(1) by (rule grid_cells_in_bounds)
  show "food (room w) \<noteq> Some c" by (rule c(3))
next
  assume "free_cells (room w) \<noteq> []"
  then show "food (room (placeFood w)) \<noteq> None"
    using randomFreeCell_Some [of w] by (auto simp: food_placeFood)
next
  assume "\<forall>c \<in> set grid_cells. c \<in> set (body_cells (room w))"
  then have "free_cells (room w) = []"
    by (simp add: free_cells_def filter_empty_conv)
  then show "food (room (placeFood w)) = None"
    by (simp add: food_placeFood randomFreeCell_def)
next
  assume "state (room w) \<noteq> Running"
  then show "foodOffBodies (startRound w)" by (rule foodOffBodies_startRound)
next
  show "foodOffBodies (onCreate cd k nm col w)"
    by (simp add: onCreate_def foodOffBodies_addPlayer)
next
  assume "food (room w) = None \<and> length (players (room w)) < 4"
  then show "foodOffBodies (onJoin k nm col w)"
    by (simp add: onJoin_def foodOffBodies_addPlayer)
qed

theorem placeFood_off_bodies_witness:
  "free_cells (room exWorld) \<noteq> [] \<and>
   (\<exists>c. food (room (placeFood exWorld)) = Some c \<and> c \<notin> set (body_cells (room exWorld))) \<and>
   set grid_cells \<subseteq> set (body_cells (room exFull)) \<and>
   food (room (placeFood exFull)) = None \<and>
   state (room exLobby) \<noteq> Running \<and> foodOffBodies (startRound exLobby) \<and>
   food (room exNoFood) = None \<and> length (players (room exNoFood)) < 4 \<and>
   foodOffBodies (onJoin ''3'' ''cy'' ''blue'' exNoFood)"
proof -
  have "(real 0, real 0) \<in> set grid_cells"
    unfolding in_grid_cells by (simp add: GRID_def)
  then have "(0, 0) \<in> set (free_cells (room exWorld))"
    by (simp add: free_cells_def exWorld_def exRoom_def body_cells_def exSnake_def exCorpse_def)
  then have a: "free_cells (room exWorld) \<noteq> []" by auto
  have b: "\<forall>c \<in> set grid_cells. c \<in> set (body_cells (room exFull))"
    by (simp add: exFull_def exWorld_def exRoom_def body_cells_def)
  have c: "state (room exLobby) \<noteq> Running"
    by (simp add: exLobby_def)
  have d: "food (room exNoFood) = None \<and> length (players (room exNoFood)) < 4"
    by (simp add: exNoFood_def exRoom_def)
  note t = placeFood_off_bodies
  from t [of exWorld, THEN conjunct1] t [of exWorld, THEN conjunct2, THEN conjunct1] a
  have e: "\<exists>c. food (room (placeFood exWorld)) = Some c \<and> c \<notin> set (body_cells (room exWorld))"
    by auto
  from t [of exFull, THEN conjunct2, THEN conjunct2, THEN conjunct1] b
  have f: "food (room (placeFood exFull)) = None" by blast
  from t [of exLobby, THEN conjunct2, THEN conjunct2, THEN conjunct2, THEN conjunct1] c
  have g: "foodOffBodies (startRound exLobby)" by blast
  from t [of exNoFood _ "''3''" "''cy''" "''blue''", THEN conjunct2, THEN conjunct2, THEN conjunct2,
      THEN conjunct2, THEN conjunct2] d
  have h: "foodOffBodies (onJoin ''3'' ''cy'' ''blue'' exNoFood)" by blast
  from a b c d e f g h show ?thesis by auto
qed

section \<open>How the players change in a round\<close>

lemma evolves_refl: "evolves w w"
  by (simp add: evolves_def option.rel_refl)

lemma evolves_trans:
  assumes "evolves w w1" "evolves w1 w2"
  shows "evolves w w2"
proof -
  have "rel_option (rtranclp (pstep (map_of (inputs (room w)) i))) (getPlayer w i) (getPlayer w2 i)" for i
  proof -
    let ?R = "rtranclp (pstep (map_of (inputs (room w)) i))"
    have a: "rel_option ?R (getPlayer w i) (getPlayer w1 i)"
      using assms(1) by (simp add: evolves_def)
    have b: "rel_option ?R (getPlayer w1 i) (getPlayer w2 i)"
      using assms by (simp add: evolves_def)
    show ?thesis
      using a b
      by (cases "getPlayer w i"; cases "getPlayer w1 i"; cases "getPlayer w2 i") auto
  qed
  then show ?thesis using assms by (simp add: evolves_def)
qed

lemma evolves_same_players:
  assumes "players (room w') = players (room w)" "inputs (room w') = inputs (room w)"
  shows "evolves w w'"
  using assms by (simp add: evolves_def getPlayer_def option.rel_refl)

lemma evolves_updPlayer:
  assumes "\<And>p. getPlayer w i = Some p \<Longrightarrow> rtranclp (pstep (map_of (inputs (room w)) i)) p (f p)"
  shows "evolves w (updPlayer i f w)"
proof -
  have "rel_option (rtranclp (pstep (map_of (inputs (room w)) j))) (getPlayer w j) (getPlayer (updPlayer i f w) j)" for j
    using assms by (cases "getPlayer w j") (auto simp: getPlayer_updPlayer option.rel_refl)
  then show ?thesis by (simp add: evolves_def updPlayer_def map_fst_map_entry)
qed

lemma evolves_updPlayer1:
  assumes "\<And>p. getPlayer w i = Some p \<Longrightarrow> pstep (map_of (inputs (room w)) i) p (f p)"
  shows "evolves w (updPlayer i f w)"
  by (rule evolves_updPlayer) (simp add: assms r_into_rtranclp)

lemma evolves_broadcast: "evolves w (broadcast m w)"
  by (rule evolves_same_players) (simp_all add: broadcast_def)

lemma evolves_rndI: "evolves w (w\<lparr>rndI := n\<rparr>)"
  by (rule evolves_same_players) simp_all

lemma evolves_clkI: "evolves w (w\<lparr>clkI := n\<rparr>)"
  by (rule evolves_same_players) simp_all

lemma evolves_placeFood: "evolves w (placeFood w)"
  using frame_placeFood [of w]
  by (intro evolves_same_players) (simp_all add: players_placeFood frame_def)

lemma evolves_killPlayer: "evolves w (killPlayer i r w)"
proof (cases "getPlayer w i")
  case None
  then show ?thesis by (simp add: killPlayer_def evolves_refl)
next
  case (Some p)
  show ?thesis
  proof (cases "alive p")
    case False
    with Some show ?thesis by (simp add: killPlayer_def evolves_refl)
  next
    case True
    let ?u = "updPlayer i (\<lambda>p. p\<lparr>alive := False, respawnAt := Some (clk w (clkI w) + 2000), snake := []\<rparr>)
          (w\<lparr>clkI := Suc (clkI w)\<rparr>)"
    have a: "evolves w (w\<lparr>clkI := Suc (clkI w)\<rparr>)" by (rule evolves_clkI)
    have b: "evolves (w\<lparr>clkI := Suc (clkI w)\<rparr>) ?u"
      by (rule evolves_updPlayer1) (rule pstep.kill)
    have c: "evolves ?u (broadcast (MDeath i r (clk w (clkI w) + 2000)) ?u)"
      by (rule evolves_broadcast)
    show ?thesis
      unfolding killPlayer_alive [OF Some True]
      by (rule evolves_trans [OF a evolves_trans [OF b c]])
  qed
qed

lemma evolves_foldl:
  assumes "\<And>v a. evolves v (f v a)"
  shows "evolves w (foldl f w xs)"
proof (induction xs arbitrary: w)
  case Nil
  show ?case by (simp add: evolves_refl)
next
  case (Cons a xs)
  show ?case using evolves_trans [OF assms Cons] by simp
qed

lemma try_presets_ok:
  assumes "try_presets r sps = Some (cells, d)"
  shows "list_all in_bounds cells \<and> d \<in> snd ` set sps"
  using assms
  by (induction sps) (auto simp: Let_def split: if_splits)

lemma random_fallback_ok:
  assumes "fst (random_fallback n w) = Some (cells, d)"
  shows "list_all in_bounds cells \<and> d \<in> set dirs4"
  using assms
proof (induction n arbitrary: w)
  case 0
  then show ?case by simp
next
  case (Suc n)
  obtain c w1 where r: "randomFreeCell w = (c, w1)" by (cases "randomFreeCell w")
  show ?case
  proof (cases c)
    case None
    with Suc.prems r show ?thesis by simp
  next
    case (Some h)
    obtain k w2 where k: "randInt 0 3 w1 = (k, w2)" by (cases "randInt 0 3 w1")
    have "nat k < length dirs4"
      using randInt_0_3 [of w1] k by (simp add: dirs4_def)
    then have m: "dirs4 ! nat k \<in> set dirs4" by (rule nth_mem)
    show ?thesis
    proof (cases "list_all in_bounds (spawn_cells h (dirs4 ! nat k))")
      case True
      with Suc.prems r Some k m show ?thesis by (auto simp: Let_def)
    next
      case False
      with Suc.prems r Some k have "fst (random_fallback n w2) = Some (cells, d)"
        by (simp add: Let_def)
      then show ?thesis by (rule Suc.IH)
    qed
  qed
qed

lemma safeSpawn_ok:
  "list_all in_bounds (fst (fst (safeSpawn w))) \<and> snd (fst (safeSpawn w)) \<in> set dirs4"
proof (cases "try_presets (room w) presets")
  case (Some sp)
  obtain cells d where sp: "sp = (cells, d)" by (cases sp)
  from try_presets_ok [of "room w" presets cells d] Some sp
  have "list_all in_bounds cells \<and> d \<in> set dirs4"
    by (auto simp: presets_def dirs4_def)
  with Some sp show ?thesis by (simp add: safeSpawn_def)
next
  case None
  obtain o1 w1 where f: "random_fallback 300 w = (o1, w1)" by (cases "random_fallback 300 w")
  show ?thesis
  proof (cases o1)
    case None
    with \<open>try_presets (room w) presets = None\<close> f show ?thesis
      by (simp add: safeSpawn_def in_bounds_def GRID_def dirs4_def)
  next
    case (Some sp)
    obtain cells d where sp: "sp = (cells, d)" by (cases sp)
    from random_fallback_ok [of 300 w cells d] f Some sp
    have "list_all in_bounds cells \<and> d \<in> set dirs4" by simp
    with None f Some sp show ?thesis by (simp add: safeSpawn_def)
  qed
qed

lemma evolves_respawn:
  "evolves w (updPlayer i (\<lambda>p. p\<lparr>snake := fst (fst (safeSpawn w)), dir := snd (fst (safeSpawn w)),
       alive := True, respawnAt := None\<rparr>) (snd (safeSpawn w)))"
proof -
  obtain n where n: "snd (safeSpawn w) = w\<lparr>rndI := n\<rparr>"
    using safeSpawn_world by blast
  have "evolves (w\<lparr>rndI := n\<rparr>) (updPlayer i (\<lambda>p. p\<lparr>snake := fst (fst (safeSpawn w)),
       dir := snd (fst (safeSpawn w)), alive := True, respawnAt := None\<rparr>) (w\<lparr>rndI := n\<rparr>))"
    by (rule evolves_updPlayer1) (simp add: pstep.spawn safeSpawn_ok)
  then show ?thesis
    unfolding n by (rule evolves_trans [OF evolves_rndI])
qed

lemma evolves_maybeRespawn: "evolves w (maybeRespawn w i)"
proof -
  let ?w1 = "w\<lparr>clkI := Suc (clkI w)\<rparr>"
  have a: "evolves w ?w1" by (rule evolves_clkI)
  have b: "evolves w (broadcast m (updPlayer i (\<lambda>p. p\<lparr>snake := fst (fst (safeSpawn ?w1)),
       dir := snd (fst (safeSpawn ?w1)), alive := True, respawnAt := None\<rparr>) (snd (safeSpawn ?w1))))" for m
    by (rule evolves_trans [OF a evolves_trans [OF evolves_respawn evolves_broadcast]])
  show ?thesis
    using a b
    by (auto simp: maybeRespawn_def now_def evolves_refl split: option.splits prod.splits)
qed

lemma evolves_applyBuffered: "evolves w (applyBuffered w i)"
proof (cases "getPlayer w i")
  case None
  then show ?thesis by (simp add: applyBuffered_def evolves_refl)
next
  case (Some p)
  show ?thesis
  proof (cases "map_of (inputs (room w)) i")
    case None
    with Some show ?thesis by (simp add: applyBuffered_def evolves_refl)
  next
    case inp: (Some s)
    let ?P = "pstep (Some s)"
    have t: "rtranclp ?P q (applyInput q (Some (idir s)))" for q
      by (auto simp: applyInput_def intro: pstep.turn r_into_rtranclp)
    have "rtranclp ?P q (let p1 = applyInput q (Some (idir s)) in
            if iseq s > lastSeq p1 then p1\<lparr>lastSeq := iseq s\<rparr> else p1)" for q
    proof (cases "iseq s > lastSeq (applyInput q (Some (idir s)))")
      case True
      then have "?P (applyInput q (Some (idir s))) ((applyInput q (Some (idir s)))\<lparr>lastSeq := iseq s\<rparr>)"
        by (simp add: pstep.ack)
      with t [of q] True show ?thesis by (simp add: Let_def)
    next
      case False
      with t [of q] show ?thesis by (simp add: Let_def)
    qed
    then have "evolves w (updPlayer i (\<lambda>p. let p1 = applyInput p (Some (idir s)) in
            if iseq s > lastSeq p1 then p1\<lparr>lastSeq := iseq s\<rparr> else p1) w)"
      by (intro evolves_updPlayer) (simp add: inp)
    with Some inp show ?thesis
      by (simp add: applyBuffered_def evolves_refl)
  qed
qed

lemma evolves_applyInputs: "evolves w (applyInputs w)"
  unfolding applyInputs_def by (rule evolves_foldl) (rule evolves_applyBuffered)

lemma evolves_resolveMove: "evolves w (resolveMove body w mv)"
proof -
  obtain i m where mv: "mv = (i, m)" by (cases mv)
  show ?thesis
  proof (cases "in_bounds m \<and> m \<notin> body")
    case False
    then obtain r where "resolveMove body w (i, m) = killPlayer i r w"
      using resolveMove_fail by blast
    then show ?thesis by (simp add: mv evolves_killPlayer)
  next
    case True
    let ?w1 = "updPlayer i (\<lambda>p. p\<lparr>snake := snake p @ [m]\<rparr>) w"
    have a: "evolves w ?w1"
      using True by (intro evolves_updPlayer1) (simp add: pstep.push)
    have b: "evolves ?w1 (updPlayer i (\<lambda>p. p\<lparr>snake := tl (snake p)\<rparr>) ?w1)"
      by (intro evolves_updPlayer1) (rule pstep.shift)
    have c: "evolves ?w1 (updPlayer i (\<lambda>p. p\<lparr>score := score p + 10\<rparr>) ?w1)"
      by (intro evolves_updPlayer1) (rule pstep.gain)
    have "resolveMove body w (i, m) = placeFood (updPlayer i (\<lambda>p. p\<lparr>score := score p + 10\<rparr>) ?w1)
        \<or> resolveMove body w (i, m) = updPlayer i (\<lambda>p. p\<lparr>snake := tl (snake p)\<rparr>) ?w1"
      using True by (simp add: resolveMove_ok)
    then show ?thesis
      unfolding mv
      using evolves_trans [OF a b] evolves_trans [OF a evolves_trans [OF c evolves_placeFood]]
      by auto
  qed
qed

lemma evolves_moveStep: "evolves w (moveStep w)"
  unfolding moveStep_def by (rule evolves_foldl) (rule evolves_resolveMove)

lemma evolves_loopBody: "evolves w (loopBody step w)"
proof -
  let ?u = "moveStep (applyInputs w)"
  have "evolves w ?u" by (rule evolves_trans [OF evolves_applyInputs evolves_moveStep])
  moreover have "evolves ?u (?u\<lparr>room := (room ?u)\<lparr>moveAcc := moveAcc (room ?u) - step\<rparr>\<rparr>)"
    by (rule evolves_same_players) simp_all
  ultimately show ?thesis
    unfolding loopBody_def Let_def by (rule evolves_trans)
qed

lemma evolves_accumulate: "evolves w (accumulate w)"
  by (rule evolves_same_players) (simp_all add: accumulate_def Let_def)

lemma evolves_beforeLoop: "evolves w (beforeLoop w)"
proof -
  let ?v = "snd (now (w\<lparr>room := (room w)\<lparr>tickNo := Suc (tickNo (room w))\<rparr>\<rparr>))"
  let ?u = "applyInputs (foldl maybeRespawn ?v (map fst (players (room ?v))))"
  have a: "evolves w ?v" by (rule evolves_same_players) (simp_all add: now_def)
  have b: "evolves ?v (foldl maybeRespawn ?v (map fst (players (room ?v))))"
    by (rule evolves_foldl) (rule evolves_maybeRespawn)
  have "evolves w (accumulate ?u)"
    by (rule evolves_trans [OF a evolves_trans [OF b evolves_trans [OF evolves_applyInputs evolves_accumulate]]])
  then show ?thesis by (simp add: beforeLoop_def Let_def)
qed

lemma evolves_endRound: "evolves w (endRound w)"
  by (rule evolves_same_players) (simp_all add: endRound_def Let_def broadcast_def)

lemma moveLoop_clamped:
  assumes "step \<noteq> 0" "moveAcc (room w) \<le> step * 2"
  shows "\<exists>u. (u = w \<or> u = loopBody step w \<or> u = loopBody step (loopBody step w)) \<and>
             moveLoop step w = Some u"
proof (cases "0 < step")
  case True
  then show ?thesis using assms(2) by (rule moveLoop_two)
next
  case False
  with assms have "moveAcc (room w) < step" by simp
  then show ?thesis by (simp add: moveLoop_stop)
qed

text \<open>Every tick returns, and what it returns has evolved from where it started.\<close>

lemma tick_evolves: "\<exists>w'. tick w = Some w' \<and> evolves w w'"
proof (cases "state (room w) = Running")
  case False
  then show ?thesis by (simp add: tick_def evolves_refl)
next
  case running: True
  let ?w2 = "snd (now (w\<lparr>room := (room w)\<lparr>tickNo := Suc (tickNo (room w))\<rparr>\<rparr>))"
  show ?thesis
  proof (cases "roundOver (clk w (clkI w)) (room w)")
    case True
    have "evolves w ?w2" by (rule evolves_same_players) (simp_all add: now_def)
    then have "evolves w (endRound ?w2)" by (rule evolves_trans) (rule evolves_endRound)
    moreover have "tick w = Some (endRound ?w2)"
      using running True by (simp add: tick_def Let_def now_def roundOver_tickNo)
    ultimately show ?thesis by simp
  next
    case False
    note t = tick_running [OF running False]
    let ?b = "beforeLoop w"
    let ?s = "1 / cps (room w)"
    have u: "evolves w u \<Longrightarrow> evolves w (broadcast (MState (clk w (clkI w)) (room u)) u)" for u
      using evolves_trans [OF _ evolves_broadcast] by blast
    show ?thesis
    proof (cases "cps (room w) = 0")
      case True
      then show ?thesis using t u [OF evolves_beforeLoop] by simp
    next
      case nz: False
      then have "?s \<noteq> 0" by simp
      moreover have "moveAcc (room ?b) \<le> ?s * 2"
        using nz by (simp add: beforeLoop_fields)
      ultimately obtain v where v: "v = ?b \<or> v = loopBody ?s ?b \<or> v = loopBody ?s (loopBody ?s ?b)"
        "moveLoop ?s ?b = Some v"
        using moveLoop_clamped by blast
      have e1: "evolves w (loopBody ?s ?b)"
        by (rule evolves_trans [OF evolves_beforeLoop evolves_loopBody])
      have e2: "evolves w (loopBody ?s (loopBody ?s ?b))"
        by (rule evolves_trans [OF e1 evolves_loopBody])
      from v(1) evolves_beforeLoop [of w] e1 e2 have "evolves w v" by auto
      then show ?thesis using t nz v(2) u by simp
    qed
  qed
qed

lemma evolves_resetPlayer: "evolves w (resetPlayer w i)"
proof -
  obtain n where n: "snd (safeSpawn w) = w\<lparr>rndI := n\<rparr>"
    using safeSpawn_world by blast
  let ?P = "pstep (map_of (inputs (room w)) i)"
  have "rtranclp ?P p (p\<lparr>snake := fst (fst (safeSpawn w)), dir := snd (fst (safeSpawn w)), alive := True,
                             respawnAt := None, score := 0\<rparr>)" for p
  proof -
    let ?q = "p\<lparr>snake := fst (fst (safeSpawn w)), dir := snd (fst (safeSpawn w)), alive := True,
                 respawnAt := None\<rparr>"
    have "?P p ?q" by (simp add: pstep.spawn safeSpawn_ok)
    moreover have "?P ?q (?q\<lparr>score := 0\<rparr>)" by (rule pstep.reset)
    ultimately show ?thesis by simp
  qed
  then have "evolves (w\<lparr>rndI := n\<rparr>) (updPlayer i (\<lambda>p. p\<lparr>snake := fst (fst (safeSpawn w)),
       dir := snd (fst (safeSpawn w)), alive := True, respawnAt := None, score := 0\<rparr>) (w\<lparr>rndI := n\<rparr>))"
    by (intro evolves_updPlayer) simp
  then have "evolves w (updPlayer i (\<lambda>p. p\<lparr>snake := fst (fst (safeSpawn w)),
       dir := snd (fst (safeSpawn w)), alive := True, respawnAt := None, score := 0\<rparr>) (snd (safeSpawn w)))"
    unfolding n by (rule evolves_trans [OF evolves_rndI])
  then show ?thesis by (auto simp: resetPlayer_def split: prod.splits)
qed

lemma evolves_startRound: "evolves w (startRound w)"
proof (cases "state (room w) = Running")
  case True
  then show ?thesis by (simp add: startRound_def evolves_refl)
next
  case False
  define w2 where "w2 = w\<lparr>clkI := Suc (clkI w),
     room := (room w)\<lparr>state := Running, startedAt := Some (clk w (clkI w)),
                        endsAt := Some (clk w (clkI w) + ROUND_MS)\<rparr>\<rparr>"
  define w4 where "w4 = placeFood (foldl resetPlayer w2 (map fst (players (room w2))))"
  have a: "evolves w w2" by (rule evolves_same_players) (simp_all add: w2_def)
  have b: "evolves w2 w4"
    unfolding w4_def
    by (rule evolves_trans [OF evolves_foldl evolves_placeFood]) (rule evolves_resetPlayer)
  have c: "evolves w4 (setInterval (broadcast (MRoomMsg (room w4)) w4))"
    by (rule evolves_same_players) (simp_all add: setInterval_def broadcast_def)
  have "startRound w = setInterval (broadcast (MRoomMsg (room w4)) w4)"
    using False by (simp add: startRound_def now_def Let_def w4_def w2_def)
  then show ?thesis
    using evolves_trans [OF a evolves_trans [OF b c]] by simp
qed

subsection \<open>What the steps of a player preserve\<close>

lemma pstep_lastSeq:
  assumes "rtranclp (pstep inp) p p'"
  shows "lastSeq p' = lastSeq p \<or> (\<exists>s. inp = Some s \<and> lastSeq p' = iseq s \<and> lastSeq p < iseq s)"
  using assms
proof (induction rule: rtranclp_induct)
  case base
  show ?case by simp
next
  case (step q r)
  from step.hyps(2) step.IH show ?case
    by (cases rule: pstep.cases) auto
qed

lemma list_all_tl: "list_all P xs \<Longrightarrow> list_all P (tl xs)"
  by (cases xs) simp_all

lemma dirs4_dirOk: "d \<in> set dirs4 \<Longrightarrow> dirOk d"
  by (auto simp: dirs4_def dirOk_def)

section \<open>The acknowledged sequence number\<close>

lemma evolves_player:
  assumes "evolves w w'" "getPlayer w i = Some p"
  shows "\<exists>p'. getPlayer w' i = Some p' \<and> rtranclp (pstep (map_of (inputs (room w)) i)) p p'"
proof -
  have "rel_option (rtranclp (pstep (map_of (inputs (room w)) i))) (Some p) (getPlayer w' i)"
    using assms by (simp add: evolves_def) (metis assms(2))
  then show ?thesis by (cases "getPlayer w' i") simp_all
qed

lemma evolves_lastSeq:
  assumes "evolves w w'" "getPlayer w i = Some p"
  shows "\<exists>p'. getPlayer w' i = Some p' \<and>
     (lastSeq p' = lastSeq p \<or>
      (\<exists>s. map_of (inputs (room w)) i = Some s \<and> lastSeq p' = iseq s \<and> lastSeq p < iseq s))"
  using evolves_player [OF assms] pstep_lastSeq by blast

lemma onInput_lastSeq:
  assumes "getPlayer w i = Some p"
  shows "\<exists>p'. getPlayer (onInput j msg w) i = Some p' \<and>
     (lastSeq p' = lastSeq p \<or> (j = i \<and> lastSeq p' = msgSeq msg \<and> lastSeq p < msgSeq msg))"
  using assms
  by (auto simp: onInput_def Let_def getPlayer_def updPlayer_def map_of_map_entry
      split: option.splits prod.splits jsv.splits)

lemma run_lastSeq:
  assumes "list_all inputOrTick es" "getPlayer w i = Some p"
  shows "\<exists>w' p'. run w es = Some w' \<and> getPlayer w' i = Some p' \<and> lastSeq p \<le> lastSeq p'"
  using assms
proof (induction es arbitrary: w p)
  case Nil
  then show ?case by simp
next
  case (Cons e es)
  have "\<exists>w1 p1. handle w e = Some w1 \<and> getPlayer w1 i = Some p1 \<and> lastSeq p \<le> lastSeq p1"
  proof (cases e)
    case (EInput j msg)
    from onInput_lastSeq [OF Cons.prems(2), of j msg] show ?thesis
      unfolding EInput by auto
  next
    case ETick
    obtain w1 where w1: "tick w = Some w1" "evolves w w1" using tick_evolves by blast
    from evolves_lastSeq [OF w1(2) Cons.prems(2)] w1(1) show ?thesis
      unfolding ETick by auto
  qed (use Cons.prems(1) in simp_all)
  then obtain w1 p1 where h: "handle w e = Some w1" "getPlayer w1 i = Some p1" "lastSeq p \<le> lastSeq p1"
    by blast
  from Cons.prems(1) have "list_all inputOrTick es" by simp
  from Cons.IH [OF this h(2)] obtain w' p' where
    "run w1 es = Some w'" "getPlayer w' i = Some p'" "lastSeq p1 \<le> lastSeq p'" by blast
  with h show ?case by auto
qed

text \<open>
  C7: over any sequence of received input messages and ticks the run returns, the player is
  still there and its \<open>lastSeq\<close> is not lower than before. A tick leaves \<open>lastSeq\<close> as it is or
  raises it to the buffered sequence number, which is then strictly greater; an input
  message leaves it or raises it, for its own sender only, to the received sequence number,
  which is then strictly greater.
\<close>

theorem lastSeq_never_decreases:
  "(list_all inputOrTick es \<and> getPlayer w i = Some p \<longrightarrow>
      (\<exists>w' p'. run w es = Some w' \<and> getPlayer w' i = Some p' \<and> lastSeq p \<le> lastSeq p')) \<and>
   (getPlayer w i = Some p \<longrightarrow>
      (\<exists>w' p'. tick w = Some w' \<and> getPlayer w' i = Some p' \<and>
         (lastSeq p' = lastSeq p \<or>
          (\<exists>s. map_of (inputs (room w)) i = Some s \<and> lastSeq p' = iseq s \<and> lastSeq p < iseq s)))) \<and>
   (getPlayer w i = Some p \<longrightarrow>
      (\<exists>p'. getPlayer (onInput j msg w) i = Some p' \<and>
         (lastSeq p' = lastSeq p \<or> (j = i \<and> lastSeq p' = msgSeq msg \<and> lastSeq p < msgSeq msg))))"
proof (intro conjI impI)
  assume "list_all inputOrTick es \<and> getPlayer w i = Some p"
  then show "\<exists>w' p'. run w es = Some w' \<and> getPlayer w' i = Some p' \<and> lastSeq p \<le> lastSeq p'"
    using run_lastSeq by blast
next
  assume p: "getPlayer w i = Some p"
  obtain w1 where w1: "tick w = Some w1" "evolves w w1" using tick_evolves by blast
  from evolves_lastSeq [OF w1(2) p] w1(1)
  show "\<exists>w' p'. tick w = Some w' \<and> getPlayer w' i = Some p' \<and>
         (lastSeq p' = lastSeq p \<or>
          (\<exists>s. map_of (inputs (room w)) i = Some s \<and> lastSeq p' = iseq s \<and> lastSeq p < iseq s))"
    by blast
next
  assume "getPlayer w i = Some p"
  then show "\<exists>p'. getPlayer (onInput j msg w) i = Some p' \<and>
         (lastSeq p' = lastSeq p \<or> (j = i \<and> lastSeq p' = msgSeq msg \<and> lastSeq p < msgSeq msg))"
    by (rule onInput_lastSeq)
qed

theorem lastSeq_never_decreases_witness:
  "list_all inputOrTick [EInput ''1'' \<lparr>mdir = Some (JNum 0, JNum 1), mseq = JNum 9\<rparr>, ETick,
      EInput ''1'' \<lparr>mdir = Some (JNum 1, JNum 0), mseq = JNum 3\<rparr>, ETick] \<and>
   getPlayer exSolo ''1'' = Some exSnake \<and> lastSeq exSnake = 0 \<and>
   (\<exists>w' p'. run exSolo [EInput ''1'' \<lparr>mdir = Some (JNum 0, JNum 1), mseq = JNum 9\<rparr>, ETick,
        EInput ''1'' \<lparr>mdir = Some (JNum 1, JNum 0), mseq = JNum 3\<rparr>, ETick] = Some w' \<and>
      getPlayer w' ''1'' = Some p' \<and> 0 \<le> lastSeq p') \<and>
   (\<exists>w' p'. tick exSolo = Some w' \<and> getPlayer w' ''1'' = Some p' \<and>
      (lastSeq p' = 0 \<or> lastSeq p' = 7))"
proof -
  let ?es = "[EInput ''1'' \<lparr>mdir = Some (JNum 0, JNum 1), mseq = JNum 9\<rparr>, ETick,
      EInput ''1'' \<lparr>mdir = Some (JNum 1, JNum 0), mseq = JNum 3\<rparr>, ETick]"
  have a: "list_all inputOrTick ?es" by simp
  have b: "getPlayer exSolo ''1'' = Some exSnake" "lastSeq exSnake = 0"
    "map_of (inputs (room exSolo)) ''1'' = Some \<lparr>idir = (-1, 0), iseq = 7\<rparr>"
    by (simp_all add: getPlayer_def ex_defs)
  note t = lastSeq_never_decreases [of ?es exSolo "''1''" exSnake]
  from t a b(1) have "\<exists>w' p'. run exSolo ?es = Some w' \<and> getPlayer w' ''1'' = Some p' \<and>
      lastSeq exSnake \<le> lastSeq p'"
    by blast
  moreover from t b(1) have "\<exists>w' p'. tick exSolo = Some w' \<and> getPlayer w' ''1'' = Some p' \<and>
         (lastSeq p' = lastSeq exSnake \<or>
          (\<exists>s. map_of (inputs (room exSolo)) ''1'' = Some s \<and> lastSeq p' = iseq s \<and> lastSeq exSnake < iseq s))"
    by blast
  ultimately show ?thesis using a b by auto
qed

section \<open>Invariants of the players and the buffered inputs\<close>

lemma list_all_map_entry:
  assumes "list_all (\<lambda>(i, p). P p) xs" "\<And>p. P p \<Longrightarrow> P (f p)"
  shows "list_all (\<lambda>(i, p). P p) (AList.map_entry k f xs)"
  using assms by (induction xs) auto

lemma list_all_update:
  assumes "list_all Q xs" "Q (k, v)"
  shows "list_all Q (AList.update k v xs)"
  using assms by (induction xs) auto

lemma list_all_delete: "list_all Q xs \<Longrightarrow> list_all Q (AList.delete k xs)"
  by (simp add: AList.delete_eq list_all_iff)

lemma keysDistinct_evolves: "evolves w w' \<Longrightarrow> keysDistinct w \<Longrightarrow> keysDistinct w'"
  by (simp add: evolves_def keysDistinct_def)

lemma inputsAll_evolves: "evolves w w' \<Longrightarrow> inputsAll Q w \<Longrightarrow> inputsAll Q w'"
  by (simp add: evolves_def inputsAll_def)

lemma playersAll_evolves:
  assumes "evolves w w'" "keysDistinct w" "playersAll P w" "inputsAll Q w"
    and pres: "\<And>inp q q'. pstep inp q q' \<Longrightarrow> P q \<Longrightarrow> (\<And>s. inp = Some s \<Longrightarrow> Q s) \<Longrightarrow> P q'"
  shows "playersAll P w'"
proof -
  have "P p'" if m: "(i, p') \<in> set (players (room w'))" for i p'
  proof -
    have "distinct (map fst (players (room w')))"
      using keysDistinct_evolves [OF assms(1,2)] by (simp add: keysDistinct_def)
    with m have g: "getPlayer w' i = Some p'" by (simp add: getPlayer_def)
    let ?inp = "map_of (inputs (room w)) i"
    have "rel_option (rtranclp (pstep ?inp)) (getPlayer w i) (getPlayer w' i)"
      using assms(1) by (simp add: evolves_def)
    with g obtain p where p: "getPlayer w i = Some p" "rtranclp (pstep ?inp) p p'"
      by (cases "getPlayer w i") auto
    from p(1) have "(i, p) \<in> set (players (room w))"
      by (simp add: getPlayer_def map_of_SomeD)
    with assms(3) have Pp: "P p" by (auto simp: playersAll_def list_all_iff)
    have Q: "Q s" if "?inp = Some s" for s
    proof -
      from that have "(i, s) \<in> set (inputs (room w))" by (rule map_of_SomeD)
      with assms(4) show ?thesis by (auto simp: inputsAll_def list_all_iff)
    qed
    from p(2) Pp show ?thesis
    proof (induction rule: rtranclp_induct)
      case base
      then show ?case by simp
    next
      case (step q r)
      then have "P q" by simp
      from pres [OF step.hyps(2) this] Q show ?case by blast
    qed
  qed
  then show ?thesis by (auto simp: playersAll_def list_all_iff)
qed

lemma roomInv_evolves:
  assumes "evolves w w'" "roomInv P Q w" "preserved P Q"
  shows "roomInv P Q w'"
proof -
  have k: "keysDistinct w" and p: "playersAll P w" and q: "inputsAll Q w"
    using assms(2) by (simp_all add: roomInv_def)
  have "playersAll P w'"
    using assms(1) k p q
  proof (rule playersAll_evolves)
    fix inp q q'
    assume "pstep inp q q'" "P q" "\<And>s. inp = Some s \<Longrightarrow> Q s"
    with assms(3) show "P q'" unfolding preserved_def by blast
  qed
  with keysDistinct_evolves [OF assms(1) k] inputsAll_evolves [OF assms(1) q]
  show ?thesis by (simp add: roomInv_def)
qed

lemma roomInv_same:
  assumes "roomInv P Q w" "players (room w') = players (room w)" "inputs (room w') = inputs (room w)"
  shows "roomInv P Q w'"
  using assms by (simp add: roomInv_def keysDistinct_def playersAll_def inputsAll_def)

lemma evolves_addPlayer:
  "evolves (w\<lparr>room := (room w)\<lparr>players := AList.update i (newPlayer nm col) (players (room w))\<rparr>\<rparr>)
     (addPlayer b i nm col w)"
proof -
  define w1 where "w1 = w\<lparr>room := (room w)\<lparr>players := AList.update i (newPlayer nm col) (players (room w))\<rparr>\<rparr>"
  obtain n where n: "snd (safeSpawn w1) = w1\<lparr>rndI := n\<rparr>"
    using safeSpawn_world by blast
  define w3 where "w3 = updPlayer i (\<lambda>p. p\<lparr>snake := fst (fst (safeSpawn w1)), dir := snd (fst (safeSpawn w1))\<rparr>)
     (snd (safeSpawn w1))"
  define w4 where "w4 = (if b \<or> food (room w3) = None then placeFood w3 else w3)"
  define w5 where "w5 = send (MJoined (room w4) i) w4"
  have "evolves (w1\<lparr>rndI := n\<rparr>) (updPlayer i (\<lambda>p. p\<lparr>snake := fst (fst (safeSpawn w1)),
      dir := snd (fst (safeSpawn w1))\<rparr>) (w1\<lparr>rndI := n\<rparr>))"
    by (rule evolves_updPlayer1) (simp add: pstep.place safeSpawn_ok)
  then have a: "evolves w1 w3"
    unfolding w3_def n by (rule evolves_trans [OF evolves_rndI])
  have b: "evolves w3 w4"
    by (simp add: w4_def evolves_refl evolves_placeFood)
  have c: "evolves w4 (broadcast (MPlayers (room w5)) w5)"
    by (rule evolves_same_players) (simp_all add: w5_def send_def broadcast_def)
  have "addPlayer b i nm col w = broadcast (MPlayers (room w5)) w5"
    by (simp add: addPlayer_def Let_def w1_def [symmetric] w3_def w4_def w5_def split: prod.splits)
  then show ?thesis
    using evolves_trans [OF a evolves_trans [OF b c]] by (simp add: w1_def)
qed

lemma roomInv_addPlayer:
  assumes "roomInv P Q w" "preserved P Q" "P (newPlayer nm col)"
  shows "roomInv P Q (addPlayer b i nm col w)"
proof -
  let ?w1 = "w\<lparr>room := (room w)\<lparr>players := AList.update i (newPlayer nm col) (players (room w))\<rparr>\<rparr>"
  have "roomInv P Q ?w1"
    using assms(1,3)
    by (simp add: roomInv_def keysDistinct_def playersAll_def inputsAll_def
        distinct_update list_all_update)
  with evolves_addPlayer show ?thesis using assms(2) by (rule roomInv_evolves)
qed

lemma roomInv_onInput:
  assumes "roomInv P Q w" "\<And>p s. P p \<Longrightarrow> P (p\<lparr>lastSeq := s\<rparr>)"
    "\<And>dx dy s. Q \<lparr>idir = (clamp dx (- 1) 1, clamp dy (- 1) 1), iseq = s\<rparr>"
  shows "roomInv P Q (onInput i msg w)"
proof (cases "\<exists>dx dy. mdir msg = Some (JNum dx, JNum dy)")
  case False
  then have "onInput i msg w = w"
    by (auto simp: onInput_def split: option.splits prod.splits jsv.splits)
  with assms(1) show ?thesis by simp
next
  case True
  then obtain dx dy where d: "mdir msg = Some (JNum dx, JNum dy)" by blast
  let ?w1 = "w\<lparr>room := (room w)\<lparr>inputs :=
      AList.update i \<lparr>idir = (clamp dx (- 1) 1, clamp dy (- 1) 1), iseq = msgSeq msg\<rparr> (inputs (room w))\<rparr>\<rparr>"
  have a: "roomInv P Q ?w1"
    using assms(1,3)
    by (simp add: roomInv_def keysDistinct_def playersAll_def inputsAll_def list_all_update)
  have b: "roomInv P Q (updPlayer i (\<lambda>p. p\<lparr>lastSeq := msgSeq msg\<rparr>) ?w1)"
    using a assms(2)
    by (simp add: roomInv_def keysDistinct_def playersAll_def inputsAll_def updPlayer_def
        map_fst_map_entry list_all_map_entry)
  have "onInput i msg w = ?w1 \<or> onInput i msg w = updPlayer i (\<lambda>p. p\<lparr>lastSeq := msgSeq msg\<rparr>) ?w1"
    by (simp add: onInput_def d Let_def split: option.splits)
  with a b show ?thesis by auto
qed

lemma roomInv_onClose:
  assumes "roomInv P Q w"
  shows "roomInv P Q (onClose i w)"
proof -
  let ?w1 = "w\<lparr>room := (room w)\<lparr>inputs := AList.delete i (inputs (room w)),
                                    players := AList.delete i (players (room w))\<rparr>\<rparr>"
  have a: "roomInv P Q ?w1"
    using assms
    by (simp add: roomInv_def keysDistinct_def playersAll_def inputsAll_def
        distinct_delete list_all_delete)
  have "players (room (onClose i w)) = players (room ?w1) \<and>
        inputs (room (onClose i w)) = inputs (room ?w1)"
    by (simp add: onClose_def Let_def broadcast_def)
  with a show ?thesis using roomInv_same by blast
qed

lemma roomInv_handle:
  assumes "roomInv P Q w" "preserved P Q" "\<And>nm col. P (newPlayer nm col)"
    "\<And>p s. P p \<Longrightarrow> P (p\<lparr>lastSeq := s\<rparr>)"
    "\<And>dx dy s. Q \<lparr>idir = (clamp dx (- 1) 1, clamp dy (- 1) 1), iseq = s\<rparr>"
  shows "\<exists>w'. handle w e = Some w' \<and> roomInv P Q w'"
proof (cases e)
  case (EJoin i nm col)
  have "roomInv P Q (onJoin i nm col w)"
  proof (cases "length (players (room w)) \<ge> 4")
    case True
    then have "onJoin i nm col w = send (MError i) w" by (simp add: onJoin_def)
    with roomInv_same [OF assms(1), of "send (MError i) w"] show ?thesis
      by (simp add: send_def)
  next
    case False
    then show ?thesis
      using roomInv_addPlayer [OF assms(1,2,3)] by (simp add: onJoin_def)
  qed
  with EJoin show ?thesis by simp
next
  case EStart
  from roomInv_evolves [OF evolves_startRound assms(1,2)] EStart show ?thesis
    by (simp add: onStart_def)
next
  case (EInput i msg)
  from roomInv_onInput [OF assms(1,4,5)] EInput show ?thesis by simp
next
  case (EClose i)
  from roomInv_onClose [OF assms(1)] EClose show ?thesis by simp
next
  case ETick
  obtain w' where "tick w = Some w'" "evolves w w'" using tick_evolves by blast
  with roomInv_evolves [OF _ assms(1,2)] ETick show ?thesis by simp
qed

lemma roomInv_run:
  assumes "roomInv P Q w" "preserved P Q" "\<And>nm col. P (newPlayer nm col)"
    "\<And>p s. P p \<Longrightarrow> P (p\<lparr>lastSeq := s\<rparr>)"
    "\<And>dx dy s. Q \<lparr>idir = (clamp dx (- 1) 1, clamp dy (- 1) 1), iseq = s\<rparr>"
  shows "\<exists>w'. run w es = Some w' \<and> roomInv P Q w'"
  using assms(1)
proof (induction es arbitrary: w)
  case Nil
  then show ?case by simp
next
  case (Cons e es)
  from roomInv_handle [OF Cons.prems assms(2-5)] obtain w1 where
    w1: "handle w e = Some w1" "roomInv P Q w1" by blast
  from Cons.IH [OF w1(2)] w1(1) show ?case by simp
qed

lemma roomInv_onCreate:
  assumes "preserved P Q" "P (newPlayer nm col)"
  shows "roomInv P Q (onCreate c i nm col w)"
proof -
  have "roomInv P Q (createRoom c w)"
    by (simp add: createRoom_def now_def roomInv_def keysDistinct_def playersAll_def inputsAll_def)
  then show ?thesis
    unfolding onCreate_def using assms by (rule roomInv_addPlayer)
qed

lemma preserved_bounds: "preserved (\<lambda>p. list_all in_bounds (snake p)) (\<lambda>s. True)"
  unfolding preserved_def
proof (intro allI impI)
  fix inp q q'
  assume "pstep inp q q' \<and> list_all in_bounds (snake q) \<and> (\<forall>s. inp = Some s \<longrightarrow> True)"
  then have "pstep inp q q'" "list_all in_bounds (snake q)" by simp_all
  then show "list_all in_bounds (snake q')"
    by (cases rule: pstep.cases) (simp_all add: list_all_tl)
qed

lemma preserved_dirs: "preserved (\<lambda>p. dirOk (dir p)) (\<lambda>s. dirOk (idir s))"
  unfolding preserved_def
proof (intro allI impI)
  fix inp q q'
  assume "pstep inp q q' \<and> dirOk (dir q) \<and> (\<forall>s. inp = Some s \<longrightarrow> dirOk (idir s))"
  then have "pstep inp q q'" "dirOk (dir q)" "\<forall>s. inp = Some s \<longrightarrow> dirOk (idir s)" by simp_all
  then show "dirOk (dir q')"
    by (cases rule: pstep.cases) (simp_all add: dirs4_dirOk)
qed

lemma bodiesInBounds_roomInv:
  "keysDistinct w \<and> bodiesInBounds w \<longleftrightarrow> roomInv (\<lambda>p. list_all in_bounds (snake p)) (\<lambda>s. True) w"
  by (simp add: roomInv_def bodiesInBounds_def inputsAll_def list_all_iff case_prod_beta)

lemma dirsInRange_roomInv:
  "keysDistinct w \<and> dirsInRange w \<longleftrightarrow> roomInv (\<lambda>p. dirOk (dir p)) (\<lambda>s. dirOk (idir s)) w"
  by (auto simp: roomInv_def dirsInRange_def)

lemma onInput_stored:
  assumes "mdir msg = Some (JNum dx, JNum dy)"
  shows "map_of (inputs (room (onInput i msg w))) i =
           Some \<lparr>idir = (clamp dx (- 1) 1, clamp dy (- 1) 1), iseq = msgSeq msg\<rparr>"
  using assms
  by (simp add: onInput_def Let_def updPlayer_def update_conv' split: option.splits)

section \<open>Bodies stay on the board\<close>

text \<open>
  C9: every body cell of every player (alive or not) lies on the board, in every state a room
  reaches: the property holds when the room is created, and every run of events from a state
  that has it returns a state that has it. Spawn placement gives cells on the board only, and
  a mover whose new head is off the board is dead after the step, its body empty.
\<close>

theorem bodies_stay_in_bounds:
  "(keysDistinct w \<and> bodiesInBounds w \<longrightarrow>
      (\<exists>w'. run w es = Some w' \<and> keysDistinct w' \<and> bodiesInBounds w')) \<and>
   keysDistinct (onCreate c k nm col w0) \<and> bodiesInBounds (onCreate c k nm col w0) \<and>
   list_all in_bounds (fst (fst (safeSpawn w))) \<and>
   (keysDistinct w \<and> getPlayer w i = Some p \<and> alive p \<and> snake p \<noteq> [] \<and> \<not> in_bounds (nextHead p) \<longrightarrow>
      (\<exists>p'. getPlayer (moveStep w) i = Some p' \<and> \<not> alive p' \<and> snake p' = []))"
proof (intro conjI impI)
  assume "keysDistinct w \<and> bodiesInBounds w"
  then have "roomInv (\<lambda>p. list_all in_bounds (snake p)) (\<lambda>s. True) w"
    by (simp add: bodiesInBounds_roomInv)
  then have "\<exists>w'. run w es = Some w' \<and> roomInv (\<lambda>p. list_all in_bounds (snake p)) (\<lambda>s. True) w'"
    using preserved_bounds by (rule roomInv_run) (simp_all add: newPlayer_def)
  then show "\<exists>w'. run w es = Some w' \<and> keysDistinct w' \<and> bodiesInBounds w'"
    by (simp add: bodiesInBounds_roomInv)
next
  have "roomInv (\<lambda>p. list_all in_bounds (snake p)) (\<lambda>s. True) (onCreate c k nm col w0)"
    using preserved_bounds by (rule roomInv_onCreate) (simp add: newPlayer_def)
  then show "keysDistinct (onCreate c k nm col w0)" "bodiesInBounds (onCreate c k nm col w0)"
    using bodiesInBounds_roomInv by blast+
next
  show "list_all in_bounds (fst (fst (safeSpawn w)))" by (simp add: safeSpawn_ok)
next
  assume a: "keysDistinct w \<and> getPlayer w i = Some p \<and> alive p \<and> snake p \<noteq> [] \<and> \<not> in_bounds (nextHead p)"
  then have "distinct (map fst (players (room w)))" "getPlayer w i = Some p" "alive p" "snake p \<noteq> []"
    "\<not> (in_bounds (nextHead p) \<and> nextHead p \<notin> set (body_cells (room w)))"
    by (simp_all add: keysDistinct_def)
  then show "\<exists>p'. getPlayer (moveStep w) i = Some p' \<and> \<not> alive p' \<and> snake p' = []"
    by (rule moveStep_failure)
qed

theorem bodies_stay_in_bounds_witness:
  "keysDistinct exSolo \<and> bodiesInBounds exSolo \<and>
   (\<exists>w'. run exSolo [ETick, EStart, EJoin ''2'' ''bob'' ''red'', ETick] = Some w' \<and> bodiesInBounds w') \<and>
   keysDistinct exWall \<and> getPlayer exWall ''1'' = Some (exSnake\<lparr>snake := [(17, 3), (18, 3), (19, 3)]\<rparr>) \<and>
   nextHead (exSnake\<lparr>snake := [(17, 3), (18, 3), (19, 3)]\<rparr>) = (20, 3) \<and> \<not> in_bounds (20, 3) \<and>
   (\<exists>p'. getPlayer (moveStep exWall) ''1'' = Some p' \<and> \<not> alive p' \<and> snake p' = [])"
proof -
  let ?q = "exSnake\<lparr>snake := [(17, 3), (18, 3), (19, 3)]\<rparr>"
  have a: "keysDistinct exSolo" "bodiesInBounds exSolo"
    by (simp_all add: keysDistinct_def bodiesInBounds_def playersAll_def ex_defs in_bounds_def GRID_def)
  have b: "keysDistinct exWall" "getPlayer exWall ''1'' = Some ?q" "alive ?q" "snake ?q \<noteq> []"
    "nextHead ?q = (20, 3)" "\<not> in_bounds (20, 3)"
    by (simp_all add: keysDistinct_def getPlayer_def exWall_def ex_defs nextHead_def in_bounds_def GRID_def)
  note t1 = bodies_stay_in_bounds [where w = exSolo
      and es = "[ETick, EStart, EJoin ''2'' ''bob'' ''red'', ETick]"]
  note t2 = bodies_stay_in_bounds [where w = exWall and i = "''1''" and p = ?q]
  from t1 [THEN conjunct1] a
  have c: "\<exists>w'. run exSolo [ETick, EStart, EJoin ''2'' ''bob'' ''red'', ETick] = Some w' \<and>
      bodiesInBounds w'" by blast
  from t2 [THEN conjunct2, THEN conjunct2, THEN conjunct2, THEN conjunct2] b
  have d: "\<exists>p'. getPlayer (moveStep exWall) ''1'' = Some p' \<and> \<not> alive p' \<and> snake p' = []"
    by simp
  from a b c d show ?thesis by simp
qed

section \<open>Directions stay in range\<close>

text \<open>
  C6, as the code has it: in every state a room reaches, both components of every player's
  direction, and of every buffered input direction, lie in \<open>[-1, 1]\<close>. A spawn direction is one
  of the four axis-aligned unit vectors; the direction stored for an accepted input message
  is the received one with each component clamped to \<open>[-1, 1]\<close> on its own, so that diagonal
  and zero directions are stored and applied like any other.
\<close>

theorem directions_stay_in_range:
  "(keysDistinct w \<and> dirsInRange w \<longrightarrow>
      (\<exists>w'. run w es = Some w' \<and> keysDistinct w' \<and> dirsInRange w')) \<and>
   keysDistinct (onCreate c k nm col w0) \<and> dirsInRange (onCreate c k nm col w0) \<and>
   snd (fst (safeSpawn w)) \<in> set dirs4 \<and>
   (mdir msg = Some (JNum dx, JNum dy) \<longrightarrow>
      map_of (inputs (room (onInput i msg w))) i =
        Some \<lparr>idir = (clamp dx (- 1) 1, clamp dy (- 1) 1), iseq = msgSeq msg\<rparr>)"
proof (intro conjI impI)
  assume "keysDistinct w \<and> dirsInRange w"
  then have "roomInv (\<lambda>p. dirOk (dir p)) (\<lambda>s. dirOk (idir s)) w"
    by (simp add: dirsInRange_roomInv)
  then have "\<exists>w'. run w es = Some w' \<and> roomInv (\<lambda>p. dirOk (dir p)) (\<lambda>s. dirOk (idir s)) w'"
    using preserved_dirs by (rule roomInv_run) (simp_all add: newPlayer_def dirOk_def clamp_def)
  then show "\<exists>w'. run w es = Some w' \<and> keysDistinct w' \<and> dirsInRange w'"
    by (simp add: dirsInRange_roomInv)
next
  have "roomInv (\<lambda>p. dirOk (dir p)) (\<lambda>s. dirOk (idir s)) (onCreate c k nm col w0)"
    using preserved_dirs by (rule roomInv_onCreate) (simp add: newPlayer_def dirOk_def)
  then show "keysDistinct (onCreate c k nm col w0)" "dirsInRange (onCreate c k nm col w0)"
    using dirsInRange_roomInv by blast+
next
  show "snd (fst (safeSpawn w)) \<in> set dirs4" by (simp add: safeSpawn_ok)
next
  assume "mdir msg = Some (JNum dx, JNum dy)"
  then show "map_of (inputs (room (onInput i msg w))) i =
        Some \<lparr>idir = (clamp dx (- 1) 1, clamp dy (- 1) 1), iseq = msgSeq msg\<rparr>"
    by (rule onInput_stored)
qed

theorem directions_stay_in_range_witness:
  "keysDistinct exSolo \<and> dirsInRange exSolo \<and>
   (\<exists>w'. run exSolo [EInput ''1'' \<lparr>mdir = Some (JNum 1, JNum 1), mseq = JNum 8\<rparr>, ETick] = Some w' \<and>
      dirsInRange w') \<and>
   map_of (inputs (room (onInput ''1'' \<lparr>mdir = Some (JNum 5, JNum (- 1 / 2)), mseq = JOther\<rparr> exSolo))) ''1'' =
     Some \<lparr>idir = (1, - 1 / 2), iseq = 0\<rparr>"
proof -
  have a: "keysDistinct exSolo" "dirsInRange exSolo"
    by (simp_all add: keysDistinct_def dirsInRange_def playersAll_def inputsAll_def ex_defs dirOk_def)
  note t1 = directions_stay_in_range [where w = exSolo
      and es = "[EInput ''1'' \<lparr>mdir = Some (JNum 1, JNum 1), mseq = JNum 8\<rparr>, ETick]"]
  note t2 = directions_stay_in_range [where w = exSolo and i = "''1''" and dx = 5 and dy = "- 1 / 2"
      and msg = "\<lparr>mdir = Some (JNum 5, JNum (- 1 / 2)), mseq = JOther\<rparr>"]
  from t1 [THEN conjunct1] a
  have c: "\<exists>w'. run exSolo [EInput ''1'' \<lparr>mdir = Some (JNum 1, JNum 1), mseq = JNum 8\<rparr>, ETick] = Some w' \<and>
      dirsInRange w'" by blast
  from t2 [THEN conjunct2, THEN conjunct2, THEN conjunct2, THEN conjunct2]
  have d: "map_of (inputs (room (onInput ''1'' \<lparr>mdir = Some (JNum 5, JNum (- 1 / 2)), mseq = JOther\<rparr> exSolo))) ''1'' =
     Some \<lparr>idir = (clamp 5 (- 1) 1, clamp (- 1 / 2) (- 1) 1), iseq = msgSeq \<lparr>mdir = Some (JNum 5, JNum (- 1 / 2)), mseq = JOther\<rparr>\<rparr>"
    by simp
  from a c d show ?thesis by (simp add: clamp_def msgSeq_def)
qed

text \<open>
  C6 as stated fails: the input handler clamps each component on its own, so the directions
  \<open>(1, 1)\<close> and \<open>(0, 0)\<close> are stored and applied; with \<open>(1, 1)\<close> the head moves diagonally.
\<close>

theorem direction_unit_vector_counterexample:
  "map_option (map (dir \<circ> snd) \<circ> players \<circ> room)
     (run exSolo [EInput ''1'' \<lparr>mdir = Some (JNum 1, JNum 1), mseq = JNum 8\<rparr>, ETick]) = Some [(1, 1)] \<and>
   (1, 1) \<notin> set dirs4 \<and>
   map_option (map (snake \<circ> snd) \<circ> players \<circ> room)
     (run exSolo [EInput ''1'' \<lparr>mdir = Some (JNum 1, JNum 1), mseq = JNum 8\<rparr>, ETick, ETick, ETick])
     = Some [[(2, 3), (3, 3), (4, 4)]] \<and>
   map_option (map (dir \<circ> snd) \<circ> players \<circ> room)
     (run exSolo [EInput ''1'' \<lparr>mdir = Some (JNum 0, JNum 0), mseq = JNum 8\<rparr>, ETick]) = Some [(0, 0)] \<and>
   (0, 0) \<notin> set dirs4"
  by (simp add: ex_defs tick_defs step_defs moveLoop_stop moveLoop_go onInput_def msgSeq_def clamp_def dirs4_def)

end
